theory Spec2Isabelle
  imports Main "HOL-Library.Word" "HOL-Library.Monad_Syntax"
begin

unbundle bit_operations_syntax

section \<open>Bytes, indexing and slicing\<close>

text \<open>
  A Go string or byte slice is a list of bytes; Go's \<open>int\<close> is modelled as \<open>int\<close>.
  An index or slice expression out of range panics in Go: here it is \<open>None\<close>.
\<close>

type_synonym byte = "8 word"

definition bytes :: "string \<Rightarrow> byte list" where
  "bytes s = map of_char s"

definition byte_at :: "byte list \<Rightarrow> int \<Rightarrow> byte option" where
  "byte_at bs i = (if 0 \<le> i \<and> i < int (length bs) then Some (bs ! nat i) else None)"

text \<open>\<open>bs[lo:hi]\<close>\<close>

definition slice :: "byte list \<Rightarrow> int \<Rightarrow> int \<Rightarrow> byte list option" where
  "slice bs lo hi =
     (if 0 \<le> lo \<and> lo \<le> hi \<and> hi \<le> int (length bs)
      then Some (take (nat (hi - lo)) (drop (nat lo) bs)) else None)"

text \<open>\<open>bs[i] == c\<close> and the digit test \<open>bs[i]-'0' < 10\<close> on \<open>uint8\<close> (the subtraction wraps).\<close>

definition is_at :: "byte list \<Rightarrow> int \<Rightarrow> byte \<Rightarrow> bool option" where
  "is_at bs i c = map_option (\<lambda>b. b = c) (byte_at bs i)"

definition digit :: "byte \<Rightarrow> bool" where
  "digit c \<longleftrightarrow> c - 0x30 < 10"

definition digit_at :: "byte list \<Rightarrow> int \<Rightarrow> bool option" where
  "digit_at bs i = map_option digit (byte_at bs i)"

text \<open>Short-circuit \<open>&&\<close> and \<open>||\<close>: the right operand is evaluated only when needed.\<close>

definition andalso :: "bool option \<Rightarrow> bool option \<Rightarrow> bool option" where
  "andalso a b = (case a of None \<Rightarrow> None | Some x \<Rightarrow> if x then b else Some False)"

definition orelse :: "bool option \<Rightarrow> bool option \<Rightarrow> bool option" where
  "orelse a b = (case a of None \<Rightarrow> None | Some x \<Rightarrow> if x then Some True else b)"

section \<open>Pattern matchers\<close>

subsection \<open>Soname\<close>

definition soname_test :: "byte list \<Rightarrow> int \<Rightarrow> bool option" where
  "soname_test bs i =
     andalso (is_at bs i 0x2E) (andalso (digit_at bs (i + 1))
       (andalso (is_at bs (i - 1) 0x6F) (andalso (is_at bs (i - 2) 0x73) (is_at bs (i - 3) 0x2E))))"

function soname_loop :: "byte list \<Rightarrow> int \<Rightarrow> int option" where
  "soname_loop bs i =
     (if i \<ge> 3 then
        (case soname_test bs i of
           None \<Rightarrow> None
         | Some t \<Rightarrow> if t then Some i else soname_loop bs (i - 1))
      else Some 0)"
  by pat_completeness auto
termination
  by (relation "measure (\<lambda>(bs, i). nat i)") auto

declare soname_loop.simps [simp del]

definition Soname :: "byte list \<Rightarrow> int option" where
  "Soname bs = soname_loop bs (int (length bs) - 2)"


subsection \<open>Embedded\<close>

text \<open>The first loop: the last \<open>.\<close> at an index above 0, or \<open>-1\<close>.\<close>

function embedded_ext :: "byte list \<Rightarrow> int \<Rightarrow> int option" where
  "embedded_ext bs i =
     (if i > 0 then
        (case is_at bs i 0x2E of
           None \<Rightarrow> None
         | Some t \<Rightarrow> if t then Some i else embedded_ext bs (i - 1))
      else Some (- 1))"
  by pat_completeness auto
termination
  by (relation "measure (\<lambda>(bs, i). nat i)") auto

declare embedded_ext.simps [simp del]

text \<open>The second loop: walk back over digits and dots, counting the dots.\<close>

function embedded_scan :: "byte list \<Rightarrow> int \<Rightarrow> int \<Rightarrow> (int \<times> int) option" where
  "embedded_scan bs i dots =
     (if i \<ge> 0 then
        (case orelse (digit_at bs i) (is_at bs i 0x2E) of
           None \<Rightarrow> None
         | Some t \<Rightarrow>
             if t then
               (case is_at bs i 0x2E of
                  None \<Rightarrow> None
                | Some d \<Rightarrow> embedded_scan bs (i - 1) (if d then dots + 1 else dots))
             else Some (i, dots))
      else Some (i, dots))"
  by pat_completeness auto
termination
  by (relation "measure (\<lambda>(bs, i, dots). nat (i + 1))") auto

declare embedded_scan.simps [simp del]

definition Embedded :: "byte list \<Rightarrow> (int \<times> int) option" where
  "Embedded bs =
     (let len = int (length bs) in
      if len < 9 then Some (0, 0)
      else do {
        ext \<leftarrow> embedded_ext bs (len - 1);
        if ext < 6 \<or> ext = len - 1 then Some (0, 0)
        else do {
          (i, dots) \<leftarrow> embedded_scan bs (ext - 1) 0;
          t \<leftarrow> andalso (Some (dots \<ge> 2)) (andalso (Some (i \<ge> 0))
                 (andalso (is_at bs (i + 1) 0x2E) (digit_at bs (i + 2))));
          if t then Some (i + 1, ext) else Some (0, 0)
        }
      })"

subsection \<open>Script\<close>

definition suffixes :: "byte list list" where
  "suffixes = map bytes
     [''.post-deinstall'', ''.post-install'', ''.post-upgrade'',
      ''.pre-install'', ''.pre-upgrade'', ''.trigger'']"

text \<open>The loop over the suffixes, leaving \<open>start\<close> at 0 when none matches.\<close>

fun script_start :: "byte list \<Rightarrow> byte list list \<Rightarrow> int option" where
  "script_start bs [] = Some 0"
| "script_start bs (suffix # rest) =
     (let len = int (length bs); n = int (length suffix) in
      case andalso (Some (len > n)) (map_option (\<lambda>t. t = suffix) (slice bs (len - n) len)) of
        None \<Rightarrow> None
      | Some t \<Rightarrow> if t then Some (len - n) else script_start bs rest)"

function script_checksum :: "byte list \<Rightarrow> int \<Rightarrow> int option" where
  "script_checksum bs i =
     (if i \<ge> 4 then
        (case andalso (is_at bs i 0x2E) (andalso (Some (i + 2 < int (length bs)))
                (andalso (is_at bs (i + 1) 0x51) (is_at bs (i + 2) 0x31))) of
           None \<Rightarrow> None
         | Some t \<Rightarrow> if t then Some i else script_checksum bs (i - 1))
      else Some (- 1))"
  by pat_completeness auto
termination
  by (relation "measure (\<lambda>(bs, i). nat i)") auto

declare script_checksum.simps [simp del]

function script_version :: "byte list \<Rightarrow> int \<Rightarrow> int \<Rightarrow> int \<Rightarrow> (int \<times> int) option" where
  "script_version bs checksumStart start i =
     (if i \<ge> 1 then
        (case andalso (is_at bs i 0x2D) (andalso (Some (i + 1 < checksumStart))
                (digit_at bs (i + 1))) of
           None \<Rightarrow> None
         | Some t \<Rightarrow> if t then Some (i, start) else script_version bs checksumStart start (i - 1))
      else Some (0, 0))"
  by pat_completeness auto
termination
  by (relation "measure (\<lambda>(bs, c, s, i). nat i)") auto

declare script_version.simps [simp del]

definition Script :: "byte list \<Rightarrow> (int \<times> int) option" where
  "Script bs =
     (let len = int (length bs) in
      if len < 20 then Some (0, 0)
      else do {
        start \<leftarrow> script_start bs suffixes;
        if start = 0 then Some (0, 0)
        else do {
          checksumStart \<leftarrow> script_checksum bs (start - 2);
          if checksumStart < 0 then Some (0, 0)
          else script_version bs checksumStart start (checksumStart - 1)
        }
      })"

subsection \<open>Suffix\<close>

function suffix_digits :: "byte list \<Rightarrow> int \<Rightarrow> int option" where
  "suffix_digits bs i =
     (if i \<ge> 0 then
        (case digit_at bs i of
           None \<Rightarrow> None
         | Some t \<Rightarrow> if t then suffix_digits bs (i - 1) else Some i)
      else Some i)"
  by pat_completeness auto
termination
  by (relation "measure (\<lambda>(bs, i). nat (i + 1))") auto

declare suffix_digits.simps [simp del]

text \<open>The version characters: \<open>c-'0' < 10 || c == '.' || c == '-' || c == '+' || (c|32)-'a' < 26\<close>.\<close>

definition verchar :: "byte \<Rightarrow> bool" where
  "verchar c \<longleftrightarrow> c - 0x30 < 10 \<or> c = 0x2E \<or> c = 0x2D \<or> c = 0x2B \<or> (c OR 32) - 0x61 < 26"

function suffix_scan :: "byte list \<Rightarrow> int \<Rightarrow> int option" where
  "suffix_scan bs i =
     (if i \<ge> 0 then
        (case byte_at bs i of
           None \<Rightarrow> None
         | Some c \<Rightarrow>
             (case andalso (Some (c = 0x2D)) (andalso (Some (i + 1 < int (length bs)))
                     (digit_at bs (i + 1))) of
                None \<Rightarrow> None
              | Some t \<Rightarrow>
                  if t then Some i
                  else if verchar c then suffix_scan bs (i - 1)
                  else Some 0))
      else Some 0)"
  by pat_completeness auto
termination
  by (relation "measure (\<lambda>(bs, i). nat (i + 1))") auto

declare suffix_scan.simps [simp del]

definition Suffix :: "byte list \<Rightarrow> int option" where
  "Suffix bs =
     (let i = int (length bs) - 1 in do {
        t \<leftarrow> andalso (Some (i > 2)) (digit_at bs i);
        i \<leftarrow> (if t then do {
                 i \<leftarrow> suffix_digits bs i;
                 r \<leftarrow> andalso (Some (i > 0)) (andalso (is_at bs i 0x72) (is_at bs (i - 1) 0x2D));
                 Some (if r then i - 2 else i)
               } else Some i);
        suffix_scan bs i
      })"

section \<open>Spans and Equal\<close>

definition Spans :: "byte list \<Rightarrow> (int \<times> int \<times> int) option" where
  "Spans bs =
     (let len = int (length bs) in do {
        r \<leftarrow> Soname bs;
        if r > 0 then Some (r, 0, 0)
        else do {
          (r1, r2) \<leftarrow> Script bs;
          if r1 > 0 then Some (r1, r2, len)
          else do {
            (r1, r2) \<leftarrow> Embedded bs;
            if r1 > 0 then Some (r1, r2, len)
            else do {
              r1 \<leftarrow> Suffix bs;
              if r1 > 0 then Some (r1, 0, 0) else Some (len, 0, 0)
            }
          }
        }
      })"

text \<open>\<open>bytes.Equal(a[la:ha], b[lb:hb])\<close>: both slice expressions are evaluated first.\<close>

definition slices_equal ::
  "byte list \<Rightarrow> int \<Rightarrow> int \<Rightarrow> byte list \<Rightarrow> int \<Rightarrow> int \<Rightarrow> bool option" where
  "slices_equal a la ha b lb hb = do { x \<leftarrow> slice a la ha; y \<leftarrow> slice b lb hb; Some (x = y) }"

definition Equal :: "byte list \<Rightarrow> byte list \<Rightarrow> bool option" where
  "Equal old cur = do {
     (oj, os, oe) \<leftarrow> Spans old;
     (cj, cs, ce) \<leftarrow> Spans cur;
     if oj \<noteq> cj \<or> oe - os \<noteq> ce - cs then Some False
     else andalso (slices_equal old 0 oj cur 0 cj) (slices_equal old os oe cur cs ce)
   }"

section \<open>Hashing\<close>

text \<open>
  \<open>maphash.Bytes\<close> is the standard library's seeded hash; it is a parameter \<open>H\<close> of
  the model, a function of the seed and the bytes.
\<close>

definition ExactFlag :: "64 word" where
  "ExactFlag = push_bit 63 1"

definition Hash :: "('s \<Rightarrow> byte list \<Rightarrow> 64 word) \<Rightarrow> byte list \<Rightarrow> 's \<Rightarrow> (64 word \<times> 64 word) option" where
  "Hash H s seed =
     (let len = int (length s); exact = H seed s AND NOT ExactFlag in
      if len = 0 then Some (exact, exact)
      else do {
        i \<leftarrow> Soname s;
        if i > 0 then do { p \<leftarrow> slice s 0 i; Some (H seed p AND NOT ExactFlag, exact) }
        else do {
          (i, j) \<leftarrow> Script s;
          if i > 0 then do {
            p \<leftarrow> slice s 0 i; q \<leftarrow> slice s j len;
            Some ((H seed p XOR H seed q) AND NOT ExactFlag, exact) }
          else do {
            (i, j) \<leftarrow> Embedded s;
            if i > 0 then do {
              p \<leftarrow> slice s 0 i; q \<leftarrow> slice s j len;
              Some ((H seed p XOR H seed q) AND NOT ExactFlag, exact) }
            else do {
              i \<leftarrow> Suffix s;
              if i > 0 then do { p \<leftarrow> slice s 0 i; Some (H seed p AND NOT ExactFlag, exact) }
              else Some (exact, exact)
            }
          }
        }
      })"

section \<open>The scan of Soname, as the specification words it\<close>

definition ascii_digit :: "byte \<Rightarrow> bool" where
  "ascii_digit c \<longleftrightarrow> 0x30 \<le> c \<and> c \<le> 0x39"

definition soname_pat :: "byte list \<Rightarrow> nat \<Rightarrow> bool" where
  "soname_pat bs i \<longleftrightarrow>
     bs ! i = 0x2E \<and> ascii_digit (bs ! (i + 1)) \<and>
     bs ! (i - 1) = 0x6F \<and> bs ! (i - 2) = 0x73 \<and> bs ! (i - 3) = 0x2E"

text \<open>The first index from \<open>len-2\<close> down to 3 at which the pattern holds, 0 when there is none.\<close>

definition soname_spec :: "byte list \<Rightarrow> int" where
  "soname_spec bs =
     (case filter (soname_pat bs) (rev [3..<length bs - 1]) of [] \<Rightarrow> 0 | i # _ \<Rightarrow> int i)"

text \<open>A concrete hash function (FNV-1a), for the closed examples that need one.\<close>

definition fnv1a :: "64 word \<Rightarrow> byte list \<Rightarrow> 64 word" where
  "fnv1a seed bs = fold (\<lambda>b h. (h XOR ucast b) * 0x100000001B3) bs (seed XOR 0xCBF29CE484222325)"

section \<open>Checked access to slices\<close>

text \<open>\<open>xs[i]\<close> as a value and as an assignment target; out of range is a panic.\<close>

definition idx :: "'a list \<Rightarrow> nat \<Rightarrow> 'a option" where
  "idx xs i = (if i < length xs then Some (xs ! i) else None)"

definition upd :: "'a list \<Rightarrow> nat \<Rightarrow> 'a \<Rightarrow> 'a list option" where
  "upd xs i v = (if i < length xs then Some (xs[i := v]) else None)"

text \<open>A loop over a list of indices whose body may panic.\<close>

fun foldM :: "('a \<Rightarrow> 'b \<Rightarrow> 'b option) \<Rightarrow> 'a list \<Rightarrow> 'b \<Rightarrow> 'b option" where
  "foldM f [] s = Some s"
| "foldM f (x # xs) s = (case f x s of None \<Rightarrow> None | Some s' \<Rightarrow> foldM f xs s')"

section \<open>Chunks of a worker pool\<close>

text \<open>
  \<open>chunk := max(1, (n+workers-1)/workers)\<close>: Go's division truncates towards zero and
  panics on a zero divisor.
\<close>

definition quot :: "int \<Rightarrow> int \<Rightarrow> int option" where
  "quot a b = (if b = 0 then None else Some (sgn a * sgn b * (\<bar>a\<bar> div \<bar>b\<bar>)))"

definition chunk_size :: "int \<Rightarrow> int \<Rightarrow> int option" where
  "chunk_size n workers = map_option (max 1) (quot (n + workers - 1) workers)"

text \<open>
  \<open>for worker := range workers { low := worker * chunk; if low >= n { break };
  high := min(low+chunk, n); wg.Go(...) }\<close>: the index ranges of the workers that are
  started, in worker order.
\<close>

definition ranges :: "int \<Rightarrow> int \<Rightarrow> int \<Rightarrow> (nat \<times> nat) list" where
  "ranges n chunk workers =
     map (\<lambda>w. (nat (w * chunk), nat (min (w * chunk + chunk) n)))
         (takeWhile (\<lambda>w. w * chunk < n) [0..workers - 1])"

section \<open>HashAll\<close>

text \<open>
  Each worker writes only the slots of its own chunk and reads nothing another worker
  writes, so the order in which the workers run does not change the arrays: the chunks are
  run one after the other.
\<close>

definition hash_slot ::
  "('s \<Rightarrow> byte list \<Rightarrow> 64 word) \<Rightarrow> 's \<Rightarrow> byte list list \<Rightarrow> nat \<Rightarrow>
   64 word list \<times> 64 word list \<Rightarrow> (64 word list \<times> 64 word list) option" where
  "hash_slot H seed files i = (\<lambda>(idMatch, exMatch). do {
     f \<leftarrow> idx files i;
     (h, e) \<leftarrow> Hash H f seed;
     idMatch' \<leftarrow> upd idMatch i h;
     exMatch' \<leftarrow> upd exMatch i e;
     Some (idMatch', exMatch')
   })"

definition HashAll ::
  "('s \<Rightarrow> byte list \<Rightarrow> 64 word) \<Rightarrow> byte list list \<Rightarrow> int \<Rightarrow> 's \<Rightarrow>
   (64 word list \<times> 64 word list) option" where
  "HashAll H files workers seed =
     (let len = int (length files) in
      if len = 0 then Some ([], [])
      else do {
        chunk \<leftarrow> chunk_size len workers;
        foldM (hash_slot H seed files)
              (concat (map (\<lambda>(low, high). [low..<high]) (ranges len chunk workers)))
              (replicate (length files) 0, replicate (length files) 0)
      })"

section \<open>The claim bitset\<close>

definition mark_word :: "32 word \<Rightarrow> nat" where
  "mark_word j = unat (drop_bit 6 j)"

definition mark_bit :: "32 word \<Rightarrow> 64 word" where
  "mark_bit j = push_bit (unat (j AND 63)) 1"

definition IsMarked :: "64 word list \<Rightarrow> 32 word \<Rightarrow> bool option" where
  "IsMarked v j = map_option (\<lambda>x. x AND mark_bit j \<noteq> 0) (idx v (mark_word j))"

text \<open>
  TryMark is a loop of two atomic operations, \<open>v[idx].Load()\<close> and
  \<open>v[idx].CompareAndSwap(old, old|bit)\<close>; other goroutines may run between them, so they
  are separate steps of the worker below.
\<close>

definition Load :: "64 word list \<Rightarrow> 32 word \<Rightarrow> 64 word option" where
  "Load v j = idx v (mark_word j)"

definition CompareAndSwap :: "64 word list \<Rightarrow> 32 word \<Rightarrow> 64 word \<Rightarrow> (64 word list \<times> bool) option" where
  "CompareAndSwap v j old = do {
     x \<leftarrow> idx v (mark_word j);
     Some (if x = old then (v[mark_word j := old OR mark_bit j], True) else (v, False))
   }"

section \<open>Result\<close>

definition Unchanged :: "8 word" where "Unchanged = 0"
definition Updated :: "8 word" where "Updated = 1"
definition Removed :: "8 word" where "Removed = 2"
definition Added :: "8 word" where "Added = 3"

definition null :: "32 word" where
  "null = 0xFFFFFFFF"

record Entry =
  Old :: "32 word"
  New :: "32 word"
  Status :: "32 word"

record Result =
  E :: "Entry list"
  C :: "32 word list"

text \<open>\<open>&Result{}\<close>: no entries, the four counters at zero.\<close>

definition empty_Result :: Result where
  "empty_Result = \<lparr>E = [], C = [0, 0, 0, 0]\<rparr>"

definition Count :: "Result \<Rightarrow> 8 word \<Rightarrow> 32 word option" where
  "Count r s = idx (C r) (unat s)"

text \<open>The iterators, as the lists of what they yield.\<close>

definition All :: "Result \<Rightarrow> (8 word \<times> Entry) list" where
  "All r = map (\<lambda>e. (ucast (Status e AND 0xFF), e)) (E r)"

definition Filter :: "Result \<Rightarrow> 8 word \<Rightarrow> Entry list" where
  "Filter r s = filter (\<lambda>e. ucast (Status e AND 0xFF) = s) (E r)"

section \<open>Phase 2: the shard table\<close>

type_synonym shard = "64 word \<rightharpoonup> 32 word"

definition shardMask :: "64 word" where
  "shardMask = 0xFF"

text \<open>
  One iteration of a populating worker. The shard's mutex is held across both map
  operations, so the iteration is one atomic step.
\<close>

definition populate :: "64 word list \<Rightarrow> 64 word list \<Rightarrow> nat \<Rightarrow> shard list \<Rightarrow> shard list option" where
  "populate curHashes curEntries i shards = do {
     h \<leftarrow> idx curHashes i;
     m \<leftarrow> idx shards (unat (h AND shardMask));
     e \<leftarrow> idx curEntries i;
     (let fileIdx = word_of_nat i;
          idKey = h;
          exKey = e OR ExactFlag;
          m1 = (if m idKey = None then m(idKey \<mapsto> fileIdx) else m)
      in upd shards (unat (h AND shardMask)) (m1(exKey \<mapsto> fileIdx)))
   }"

text \<open>
  The workers run concurrently. A schedule is a list of worker numbers: each element lets
  that worker take its next step (nothing happens when it has none left); when the
  schedule is used up the workers that are not done run to their end in worker order.
  Every interleaving of the workers' steps is the run of some schedule.
\<close>

fun interleave :: "nat list \<Rightarrow> 'a list list \<Rightarrow> 'a list" where
  "interleave [] qs = concat qs"
| "interleave (k # sch) qs =
     (if k < length qs then
        (case qs ! k of
           [] \<Rightarrow> interleave sch qs
         | x # xs \<Rightarrow> x # interleave sch (qs[k := xs]))
      else interleave sch qs)"

definition build_shards ::
  "nat list \<Rightarrow> 64 word list \<Rightarrow> 64 word list \<Rightarrow> (nat \<times> nat) list \<Rightarrow> shard list option" where
  "build_shards sch curHashes curEntries rs =
     foldM (populate curHashes curEntries)
           (interleave sch (map (\<lambda>(low, high). [low..<high]) rs))
           (replicate 256 Map.empty)"

section \<open>Phase 3: matching old against cur\<close>

record ctx =
  c_old :: "byte list list"
  c_cur :: "byte list list"
  c_oldHashes :: "64 word list"
  c_oldEntries :: "64 word list"
  c_shards :: "shard list"

text \<open>
  Where a worker stands inside the iteration for its index \<open>i\<close>: at the top, inside the
  TryMark of the exact match (before its Load, or before its CompareAndSwap with the value
  loaded), before the IsMarked of the identity match, or inside the TryMark of the
  identity match.
\<close>

datatype pc =
    Top
  | ExLoad "32 word"
  | ExCas "32 word" "64 word"
  | IdCheck "32 word"
  | IdLoad "32 word"
  | IdCas "32 word" "64 word"

record worker =
  w_i :: nat
  w_high :: nat
  w_pc :: pc
  w_entries :: "Entry list"
  w_status :: "32 word list"

definition start_worker :: "nat \<times> nat \<Rightarrow> worker" where
  "start_worker = (\<lambda>(low, high).
     \<lparr>w_i = low, w_high = high, w_pc = Top, w_entries = [], w_status = [0, 0, 0]\<rparr>)"

definition finished :: "worker \<Rightarrow> bool" where
  "finished w \<longleftrightarrow> \<not> w_i w < w_high w"

text \<open>\<open>entries = append(entries, Entry{fileIdx, new, uint32(st)}); status[st]++; continue\<close>\<close>

definition emit :: "worker \<Rightarrow> 32 word \<Rightarrow> 8 word \<Rightarrow> worker" where
  "emit w new st =
     w\<lparr>w_entries := w_entries w @ [\<lparr>Old = word_of_nat (w_i w), New = new, Status = ucast st\<rparr>],
       w_status := (w_status w)[unat st := w_status w ! unat st + 1],
       w_i := w_i w + 1,
       w_pc := Top\<rparr>"

text \<open>The lookup of the identity key, reached when the exact match did not succeed.\<close>

definition id_probe :: "ctx \<Rightarrow> worker \<Rightarrow> worker option" where
  "id_probe c w = do {
     h \<leftarrow> idx (c_oldHashes c) (w_i w);
     m \<leftarrow> idx (c_shards c) (unat (h AND shardMask));
     Some (case m h of
             Some idMatch \<Rightarrow> w\<lparr>w_pc := IdCheck idMatch\<rparr>
           | None \<Rightarrow> emit w null Removed)
   }"

text \<open>One step of a worker: at most one access to the shared bitset.\<close>

definition match_step :: "ctx \<Rightarrow> 64 word list \<Rightarrow> worker \<Rightarrow> (64 word list \<times> worker) option" where
  "match_step c v w =
     (case w_pc w of
        Top \<Rightarrow> do {
          h \<leftarrow> idx (c_oldHashes c) (w_i w);
          m \<leftarrow> idx (c_shards c) (unat (h AND shardMask));
          e \<leftarrow> idx (c_oldEntries c) (w_i w);
          (case m (e OR ExactFlag) of
             Some exMatch \<Rightarrow> do {
               old_i \<leftarrow> idx (c_old c) (w_i w);
               cur_m \<leftarrow> idx (c_cur c) (unat exMatch);
               if old_i = cur_m then Some (v, w\<lparr>w_pc := ExLoad exMatch\<rparr>)
               else map_option (Pair v) (id_probe c w)
             }
           | None \<Rightarrow> map_option (Pair v) (id_probe c w))
        }
      | ExLoad j \<Rightarrow> do {
          x \<leftarrow> Load v j;
          if x AND mark_bit j \<noteq> 0 then map_option (Pair v) (id_probe c w)
          else Some (v, w\<lparr>w_pc := ExCas j x\<rparr>)
        }
      | ExCas j x \<Rightarrow> do {
          (v', ok) \<leftarrow> CompareAndSwap v j x;
          Some (v', if ok then emit w j Unchanged else w\<lparr>w_pc := ExLoad j\<rparr>)
        }
      | IdCheck j \<Rightarrow> do {
          marked \<leftarrow> IsMarked v j;
          if marked then Some (v, emit w null Removed)
          else do {
            old_i \<leftarrow> idx (c_old c) (w_i w);
            cur_m \<leftarrow> idx (c_cur c) (unat j);
            eq \<leftarrow> Equal old_i cur_m;
            Some (v, if eq then w\<lparr>w_pc := IdLoad j\<rparr> else emit w null Removed)
          }
        }
      | IdLoad j \<Rightarrow> do {
          x \<leftarrow> Load v j;
          Some (v, if x AND mark_bit j \<noteq> 0 then emit w null Removed else w\<lparr>w_pc := IdCas j x\<rparr>)
        }
      | IdCas j x \<Rightarrow> do {
          (v', ok) \<leftarrow> CompareAndSwap v j x;
          Some (v', if ok then emit w j Updated else w\<lparr>w_pc := IdLoad j\<rparr>)
        })"

text \<open>The steps a worker still has to take when it runs alone: the measure of its loop.\<close>

definition pc_rank :: "64 word list \<Rightarrow> pc \<Rightarrow> nat" where
  "pc_rank v p =
     (case p of
        Top \<Rightarrow> 8
      | ExLoad j \<Rightarrow> 6
      | ExCas j x \<Rightarrow> (if idx v (mark_word j) = Some x then 5 else 7)
      | IdCheck j \<Rightarrow> 4
      | IdLoad j \<Rightarrow> 2
      | IdCas j x \<Rightarrow> (if idx v (mark_word j) = Some x then 1 else 3))"

definition steps_left :: "64 word list \<times> worker \<Rightarrow> nat" where
  "steps_left = (\<lambda>(v, w). 9 * (w_high w - w_i w) + pc_rank v (w_pc w))"

function run_worker :: "ctx \<Rightarrow> 64 word list \<times> worker \<Rightarrow> (64 word list \<times> worker) option" where
  "run_worker c (v, w) =
     (if finished w then Some (v, w)
      else (case match_step c v w of None \<Rightarrow> None | Some s \<Rightarrow> run_worker c s))"
  by pat_completeness auto
termination
proof (relation "measure (\<lambda>(c, s). steps_left s)")
  show "wf (measure (\<lambda>(c, s). steps_left s))" by simp
next
  fix c :: ctx and v :: "64 word list" and w :: worker and s
  assume nf: "\<not> finished w" and st: "match_step c v w = Some s"
  have e: "w_high (emit w n t) - w_i (emit w n t) < w_high w - w_i w" for n t
    using nf by (simp add: emit_def finished_def)
  have p: "id_probe c w = Some w' \<Longrightarrow> steps_left (v, w') < 9 * (w_high w - w_i w) + 5" for w'
    using nf
    by (auto simp add: id_probe_def emit_def finished_def steps_left_def pc_rank_def
             split: bind_splits option.splits)
  have "steps_left s < steps_left (v, w)"
  proof (cases "w_pc w")
    case Top
    with st p show ?thesis
      by (auto simp add: match_step_def steps_left_def pc_rank_def
               split: bind_splits option.splits if_splits)
  next
    case (ExLoad j)
    with st p show ?thesis
      by (auto simp add: match_step_def steps_left_def pc_rank_def Load_def
               split: bind_splits option.splits if_splits)
  next
    case (ExCas j x)
    with st nf show ?thesis
      by (auto simp add: match_step_def steps_left_def pc_rank_def CompareAndSwap_def
                 emit_def finished_def
               split: bind_splits option.splits if_splits)
  next
    case (IdCheck j)
    with st nf show ?thesis
      by (auto simp add: match_step_def steps_left_def pc_rank_def emit_def finished_def
               split: bind_splits option.splits if_splits)
  next
    case (IdLoad j)
    with st nf show ?thesis
      by (auto simp add: match_step_def steps_left_def pc_rank_def Load_def emit_def finished_def
               split: bind_splits option.splits if_splits)
  next
    case (IdCas j x)
    with st nf show ?thesis
      by (auto simp add: match_step_def steps_left_def pc_rank_def CompareAndSwap_def
                 emit_def finished_def
               split: bind_splits option.splits if_splits)
  qed
  then show "((c, s), (c, v, w)) \<in> measure (\<lambda>(c, s). steps_left s)" by simp
qed

declare run_worker.simps [simp del]

text \<open>The concurrent run of the workers under a schedule (see Phase 2).\<close>

fun run_sched ::
  "ctx \<Rightarrow> nat list \<Rightarrow> 64 word list \<times> worker list \<Rightarrow> (64 word list \<times> worker list) option" where
  "run_sched c [] s = Some s"
| "run_sched c (k # sch) (v, ws) =
     (if k < length ws \<and> \<not> finished (ws ! k) then
        (case match_step c v (ws ! k) of
           None \<Rightarrow> None
         | Some (v', w') \<Rightarrow> run_sched c sch (v', ws[k := w']))
      else run_sched c sch (v, ws))"

definition finish_worker ::
  "ctx \<Rightarrow> nat \<Rightarrow> 64 word list \<times> worker list \<Rightarrow> (64 word list \<times> worker list) option" where
  "finish_worker c k = (\<lambda>(v, ws). do {
     w \<leftarrow> idx ws k;
     (v', w') \<leftarrow> run_worker c (v, w);
     Some (v', ws[k := w'])
   })"

definition run_workers ::
  "ctx \<Rightarrow> nat list \<Rightarrow> 64 word list \<times> worker list \<Rightarrow> (64 word list \<times> worker list) option" where
  "run_workers c sch s = do {
     (v, ws) \<leftarrow> run_sched c sch s;
     foldM (finish_worker c) [0..<length ws] (v, ws)
   }"

section \<open>Phase 4: additions\<close>

text \<open>The bitset is only read here, so the workers do not influence each other.\<close>

definition additions_of :: "64 word list \<Rightarrow> nat \<times> nat \<Rightarrow> Entry list option" where
  "additions_of matches = (\<lambda>(low, high).
     foldM (\<lambda>i entries. do {
              marked \<leftarrow> IsMarked matches (word_of_nat i);
              Some (if \<not> marked
                    then entries @ [\<lparr>Old = null, New = word_of_nat i, Status = ucast Added\<rparr>]
                    else entries)
            }) [low..<high] [])"

section \<open>Phase 5: merge\<close>

text \<open>\<open>for status := range 3 { result.C[status].Add(counts[worker][status]) }\<close>\<close>

definition add_counts :: "32 word list \<Rightarrow> 32 word list \<Rightarrow> 32 word list" where
  "add_counts cs status = fold (\<lambda>s cs. cs[s := cs ! s + status ! s]) [0..<3] cs"

definition merge :: "Entry list list \<Rightarrow> 32 word list list \<Rightarrow> Entry list list \<Rightarrow> Result" where
  "merge results counts additions =
     fold (\<lambda>entries r.
             r\<lparr>E := E r @ entries,
               C := (C r)[unat Added := C r ! unat Added + word_of_nat (length entries)]\<rparr>)
          additions
          (fold (\<lambda>(entries, status) r. r\<lparr>E := E r @ entries, C := add_counts (C r) status\<rparr>)
                (zip results counts) empty_Result)"

section \<open>diffP and Diff\<close>

text \<open>
  \<open>sch2\<close> and \<open>sch3\<close> are the schedules of the workers of Phase 2 and Phase 3; \<open>H\<close> and
  \<open>seed\<close> are the hash function and the package's seed. \<open>make\<close> of a slice of negative
  length panics; running out of memory is not modelled.
\<close>

definition diffP ::
  "('s \<Rightarrow> byte list \<Rightarrow> 64 word) \<Rightarrow> 's \<Rightarrow> nat list \<Rightarrow> nat list \<Rightarrow>
   byte list list \<Rightarrow> byte list list \<Rightarrow> int \<Rightarrow> Result option" where
  "diffP H seed sch2 sch3 old cur workers =
     (let oldFiles = int (length old); newFiles = int (length cur) in
      if oldFiles = 0 \<and> newFiles = 0 then Some empty_Result
      else do {
        (oldHashes, oldEntries) \<leftarrow> HashAll H old workers seed;
        (curHashes, curEntries) \<leftarrow> HashAll H cur workers seed;
        chunk \<leftarrow> chunk_size newFiles workers;
        shards \<leftarrow> build_shards sch2 curHashes curEntries (ranges newFiles chunk workers);
        if workers < 0 then None
        else do {
          chunk \<leftarrow> chunk_size newFiles workers;
          (matches, ws) \<leftarrow>
            run_workers
              \<lparr>c_old = old, c_cur = cur, c_oldHashes = oldHashes, c_oldEntries = oldEntries,
               c_shards = shards\<rparr>
              sch3
              (replicate (nat ((newFiles + 63) div 64)) 0,
               map start_worker (ranges oldFiles chunk workers));
          chunk \<leftarrow> chunk_size newFiles workers;
          added \<leftarrow> those (map (additions_of matches) (ranges newFiles chunk workers));
          Some (merge (map w_entries ws @ replicate (nat workers - length ws) [])
                      (map w_status ws @ replicate (nat workers - length ws) [0, 0, 0])
                      (added @ replicate (nat workers - length added) []))
        }
      })"

text \<open>\<open>Diff\<close> passes \<open>max(1, runtime.GOMAXPROCS(0))\<close>; the setting is the parameter \<open>procs\<close>.\<close>

definition Diff ::
  "('s \<Rightarrow> byte list \<Rightarrow> 64 word) \<Rightarrow> 's \<Rightarrow> nat list \<Rightarrow> nat list \<Rightarrow> int \<Rightarrow>
   byte list list \<Rightarrow> byte list list \<Rightarrow> Result option" where
  "Diff H seed sch2 sch3 procs old cur = diffP H seed sch2 sch3 old cur (max 1 procs)"

section \<open>Names for what the model computes\<close>

text \<open>The two hashes of a file, as \<open>Hash\<close> returns them.\<close>

definition id_hash :: "('s \<Rightarrow> byte list \<Rightarrow> 64 word) \<Rightarrow> 's \<Rightarrow> byte list \<Rightarrow> 64 word" where
  "id_hash H seed bs = (case Hash H bs seed of Some (h, e) \<Rightarrow> h | None \<Rightarrow> 0)"

definition exact_hash :: "('s \<Rightarrow> byte list \<Rightarrow> 64 word) \<Rightarrow> 's \<Rightarrow> byte list \<Rightarrow> 64 word" where
  "exact_hash H seed bs = H seed bs AND NOT ExactFlag"

section \<open>Invariants of Phase 3\<close>

text \<open>
  The context of Phase 3 as diffP builds it: hash arrays as long as \<open>old\<close>, 256 shards,
  every value of the table an index of \<open>cur\<close>.
\<close>

definition ctx_ok :: "ctx \<Rightarrow> bool" where
  "ctx_ok c \<longleftrightarrow>
     length (c_oldHashes c) = length (c_old c) \<and>
     length (c_oldEntries c) = length (c_old c) \<and>
     length (c_shards c) = 256 \<and>
     (\<forall>s<256. \<forall>k v. (c_shards c ! s) k = Some v \<longrightarrow> unat v < length (c_cur c))"

text \<open>What the probe of the exact key finds for the old index \<open>i\<close>.\<close>

definition exact_lookup :: "ctx \<Rightarrow> nat \<Rightarrow> 32 word option" where
  "exact_lookup c i =
     (c_shards c ! unat (c_oldHashes c ! i AND shardMask)) (c_oldEntries c ! i OR ExactFlag)"

text \<open>The exact keys of the table lead every old file to the cur file equal to it.\<close>

definition exact_ok :: "ctx \<Rightarrow> bool" where
  "exact_ok c \<longleftrightarrow>
     length (c_cur c) \<le> 2 ^ 32 \<and>
     (\<forall>i<length (c_old c). \<forall>m<length (c_cur c).
        c_old c ! i = c_cur c ! m \<longrightarrow> exact_lookup c i = Some (word_of_nat m))"

definition count_status :: "32 word \<Rightarrow> Entry list \<Rightarrow> nat" where
  "count_status s es = length (filter (\<lambda>e. Status e = s) es)"

text \<open>What an entry emitted for the old index \<open>i\<close> looks like.\<close>

definition good_entry :: "ctx \<Rightarrow> nat \<Rightarrow> Entry \<Rightarrow> bool" where
  "good_entry c i e \<longleftrightarrow>
     Old e = word_of_nat i \<and>
     ((Status e = 0 \<and> unat (New e) < length (c_cur c) \<and> c_old c ! i = c_cur c ! unat (New e)) \<or>
      (Status e = 1 \<and> unat (New e) < length (c_cur c) \<and>
       Equal (c_old c ! i) (c_cur c ! unat (New e)) = Some True \<and>
       (exact_ok c \<longrightarrow> c_old c ! i \<noteq> c_cur c ! unat (New e))) \<or>
      (Status e = 2 \<and> New e = null))"

definition worker_inv :: "ctx \<Rightarrow> nat \<Rightarrow> nat \<Rightarrow> worker \<Rightarrow> bool" where
  "worker_inv c lo hi w \<longleftrightarrow>
     lo \<le> w_i w \<and> w_i w \<le> hi \<and> w_high w = hi \<and>
     length (w_entries w) = w_i w - lo \<and>
     (\<forall>p<length (w_entries w). good_entry c (lo + p) (w_entries w ! p)) \<and>
     length (w_status w) = 3 \<and>
     (\<forall>s<3. w_status w ! s = word_of_nat (count_status (word_of_nat s) (w_entries w)))"

definition pc_inv :: "ctx \<Rightarrow> 64 word list \<Rightarrow> worker \<Rightarrow> bool" where
  "pc_inv c v w =
     (let old_i = c_old c ! w_i w;
          ex = (\<lambda>j. unat j < length (c_cur c) \<and> exact_lookup c (w_i w) = Some j \<and>
                    old_i = c_cur c ! unat j);
          ident = (\<lambda>j. unat j < length (c_cur c) \<and>
                    Equal old_i (c_cur c ! unat j) = Some True \<and>
                    (exact_ok c \<longrightarrow> old_i \<noteq> c_cur c ! unat j))
      in case w_pc w of
           Top \<Rightarrow> True
         | ExLoad j \<Rightarrow> ex j
         | ExCas j x \<Rightarrow> ex j
         | IdCheck j \<Rightarrow> unat j < length (c_cur c) \<and>
             (exact_ok c \<longrightarrow> old_i = c_cur c ! unat j \<longrightarrow> IsMarked v j = Some True)
         | IdLoad j \<Rightarrow> ident j
         | IdCas j x \<Rightarrow> ident j)"

definition match_inv :: "ctx \<Rightarrow> nat \<times> nat \<Rightarrow> 64 word list \<Rightarrow> worker \<Rightarrow> bool" where
  "match_inv c = (\<lambda>(lo, hi) v w.
     length v = nat ((int (length (c_cur c)) + 63) div 64) \<and> hi \<le> length (c_old c) \<and>
     worker_inv c lo hi w \<and> pc_inv c v w)"

text \<open>Bits of the bitset are only ever set.\<close>

definition marks_grow :: "64 word list \<Rightarrow> 64 word list \<Rightarrow> bool" where
  "marks_grow v v' \<longleftrightarrow>
     length v' = length v \<and> (\<forall>j. IsMarked v j = Some True \<longrightarrow> IsMarked v' j = Some True)"

(*DEFS-END*)

section \<open>Facts about indexing and the short-circuit operators\<close>



lemma andalso_simps [simp]:
  "andalso None b = None"
  "andalso (Some True) b = b"
  "andalso (Some False) b = Some False"
  by (simp_all add: andalso_def)

lemma andalso_Some [simp]: "andalso (Some a) (Some b) = Some (a \<and> b)"
  by (simp add: andalso_def)

lemma orelse_Some [simp]: "orelse (Some a) (Some b) = Some (a \<or> b)"
  by (simp add: orelse_def)

lemma orelse_simps [simp]:
  "orelse None b = None"
  "orelse (Some True) b = Some True"
  "orelse (Some False) b = b"
  by (simp_all add: orelse_def)

lemma byte_at_in [simp]:
  "0 \<le> i \<Longrightarrow> i < int (length bs) \<Longrightarrow> byte_at bs i = Some (bs ! nat i)"
  by (simp add: byte_at_def)

lemma is_at_in [simp]:
  "0 \<le> i \<Longrightarrow> i < int (length bs) \<Longrightarrow> is_at bs i c = Some (bs ! nat i = c)"
  by (simp add: is_at_def)

lemma digit_at_in [simp]:
  "0 \<le> i \<Longrightarrow> i < int (length bs) \<Longrightarrow> digit_at bs i = Some (digit (bs ! nat i))"
  by (simp add: digit_at_def)

lemma digit_ascii: "digit c = ascii_digit c"
  unfolding digit_def ascii_digit_def
  by (auto simp add: word_le_nat_alt word_less_nat_alt unat_sub_if') 

section \<open>The matchers are total and stay in range\<close>

lemma soname_test_in:
  "3 \<le> i \<Longrightarrow> i + 1 < int (length bs) \<Longrightarrow> soname_test bs i = Some (soname_pat bs (nat i))"
  by (simp add: soname_test_def soname_pat_def digit_ascii nat_add_distrib nat_diff_distrib)

lemma soname_loop_spec:
  "i + 1 < int (length bs) \<Longrightarrow>
   soname_loop bs i =
     Some (case filter (soname_pat bs) (rev [3..<nat (i + 1)]) of [] \<Rightarrow> 0 | j # _ \<Rightarrow> int j)"
proof (induction bs i rule: soname_loop.induct)
  case (1 bs i)
  show ?case
  proof (cases "3 \<le> i")
    case False
    then show ?thesis by (simp add: soname_loop.simps)
  next
    case True
    then have up: "[3..<nat (i + 1)] = [3..<nat i] @ [nat i]"
      by (simp add: nat_add_distrib)
    show ?thesis
    proof (cases "soname_pat bs (nat i)")
      case True
      with \<open>3 \<le> i\<close> 1 show ?thesis
        by (subst soname_loop.simps) (simp add: soname_test_in up)
    next
      case False
      with \<open>3 \<le> i\<close> 1 show ?thesis
        by (subst soname_loop.simps) (simp add: soname_test_in up)
    qed
  qed
qed

lemma Soname_spec: "Soname bs = Some (soname_spec bs)"
proof (cases "length bs < 2")
  case True
  then show ?thesis
    by (simp add: Soname_def soname_spec_def soname_loop.simps)
next
  case False
  then have "nat (int (length bs) - 2 + 1) = length bs - 1" by simp
  with False soname_loop_spec [of "int (length bs) - 2" bs] show ?thesis
    by (simp add: Soname_def soname_spec_def)
qed

lemma soname_spec_bounds: "0 \<le> soname_spec bs \<and> soname_spec bs \<le> int (length bs)"
proof (cases "filter (soname_pat bs) (rev [3..<length bs - 1])")
  case Nil
  then show ?thesis by (simp add: soname_spec_def)
next
  case (Cons j js)
  then have "j \<in> set (filter (soname_pat bs) (rev [3..<length bs - 1]))" by simp
  then have "j < length bs - 1" by simp
  with Cons show ?thesis by (simp add: soname_spec_def)
qed


lemma embedded_ext_total:
  "i < int (length bs) \<Longrightarrow> \<exists>e. embedded_ext bs i = Some e \<and> (e = - 1 \<or> (0 < e \<and> e \<le> i))"
proof (induction bs i rule: embedded_ext.induct)
  case (1 bs i)
  show ?case
  proof (cases "0 < i")
    case False
    then show ?thesis by (simp add: embedded_ext.simps)
  next
    case True
    show ?thesis
    proof (cases "bs ! nat i = 0x2E")
      case True
      with \<open>0 < i\<close> 1 show ?thesis by (subst embedded_ext.simps) simp
    next
      case False
      with \<open>0 < i\<close> 1(2) have "\<exists>e. embedded_ext bs (i - 1) = Some e \<and> (e = - 1 \<or> (0 < e \<and> e \<le> i - 1))"
        by (intro 1(1)) simp_all
      with False \<open>0 < i\<close> 1(2) show ?thesis
        by (subst embedded_ext.simps) auto
    qed
  qed
qed

lemma embedded_scan_total:
  "- 1 \<le> i \<Longrightarrow> i < int (length bs) \<Longrightarrow>
   \<exists>i' d. embedded_scan bs i dots = Some (i', d) \<and> - 1 \<le> i' \<and> i' \<le> i \<and> dots \<le> d \<and> d - dots \<le> i - i'"
proof (induction bs i dots rule: embedded_scan.induct)
  case (1 bs i dots)
  show ?case
  proof (cases "0 \<le> i")
    case False
    with 1(2) show ?thesis by (simp add: embedded_scan.simps)
  next
    case True
    show ?thesis
    proof (cases "digit (bs ! nat i) \<or> bs ! nat i = 0x2E")
      case False
      with True 1(3) show ?thesis by (subst embedded_scan.simps) simp
    next
      case c: True
      let ?d = "if bs ! nat i = 0x2E then dots + 1 else dots"
      from True 1(3) c
      have "\<exists>i' d. embedded_scan bs (i - 1) ?d = Some (i', d) \<and> - 1 \<le> i' \<and> i' \<le> i - 1 \<and> ?d \<le> d \<and> d - ?d \<le> i - 1 - i'"
        by (intro 1(1) [of True]) simp_all
      then obtain i' d where r: "embedded_scan bs (i - 1) ?d = Some (i', d)"
        and b: "- 1 \<le> i'" "i' \<le> i - 1" "?d \<le> d" "d - ?d \<le> i - 1 - i'"
        by blast
      have "embedded_scan bs i dots = Some (i', d)"
        using True 1(3) c r by (subst embedded_scan.simps) simp
      moreover from b have "- 1 \<le> i' \<and> i' \<le> i \<and> dots \<le> d \<and> d - dots \<le> i - i'"
        by (auto split: if_splits)
      ultimately show ?thesis by blast
    qed
  qed
qed

lemma Embedded_total:
  "\<exists>s e. Embedded bs = Some (s, e) \<and>
     ((s = 0 \<and> e = 0) \<or> (0 < s \<and> s < e \<and> e < int (length bs) - 1))"
proof (cases "int (length bs) < 9")
  case True
  then show ?thesis by (simp add: Embedded_def)
next
  case long: False
  from embedded_ext_total [of "int (length bs) - 1" bs]
  obtain ext where ext: "embedded_ext bs (int (length bs) - 1) = Some ext"
    and eb: "ext = - 1 \<or> (0 < ext \<and> ext \<le> int (length bs) - 1)"
    by auto
  show ?thesis
  proof (cases "ext < 6 \<or> ext = int (length bs) - 1")
    case True
    with long ext show ?thesis by (simp add: Embedded_def Let_def)
  next
    case False
    with eb have e6: "6 \<le> ext" "ext < int (length bs) - 1" by auto
    from embedded_scan_total [of "ext - 1" bs 0] e6
    obtain i d where sc: "embedded_scan bs (ext - 1) 0 = Some (i, d)"
      and sb: "- 1 \<le> i" "i \<le> ext - 1" "0 \<le> d" "d \<le> ext - 1 - i"
      by auto
    show ?thesis
    proof (cases "2 \<le> d \<and> 0 \<le> i")
      case False
      with long ext e6 sc show ?thesis
        by (auto simp add: Embedded_def Let_def)
    next
      case True
      with sb e6 have "0 \<le> i + 1" "i + 1 < int (length bs)" "0 \<le> i + 2" "i + 2 < int (length bs)"
        by auto
      with True long ext e6 sc sb show ?thesis
        by (auto simp add: Embedded_def Let_def)
    qed
  qed
qed


lemma slice_in [simp]:
  "0 \<le> lo \<Longrightarrow> lo \<le> hi \<Longrightarrow> hi \<le> int (length bs) \<Longrightarrow>
   slice bs lo hi = Some (take (nat (hi - lo)) (drop (nat lo) bs))"
  by (simp add: slice_def)

lemma script_start_total:
  "\<forall>x \<in> set sfxs. x \<noteq> [] \<Longrightarrow>
   \<exists>s. script_start bs sfxs = Some s \<and> (s = 0 \<or> (0 < s \<and> s < int (length bs)))"
proof (induction sfxs)
  case Nil
  then show ?case by simp
next
  case (Cons x xs)
  then obtain s where s: "script_start bs xs = Some s" "s = 0 \<or> (0 < s \<and> s < int (length bs))"
    by auto
  from Cons(2) have "x \<noteq> []" by simp
  then have "0 < length x" by simp
  show ?case
  proof (cases "int (length x) < int (length bs)")
    case False
    with s show ?thesis by (simp add: Let_def)
  next
    case True
    with s \<open>0 < length x\<close> show ?thesis by (auto simp add: Let_def)
  qed
qed

lemma suffixes_nonempty: "\<forall>x \<in> set suffixes. x \<noteq> []"
  by (simp add: suffixes_def bytes_def)

lemma script_checksum_total:
  "i + 2 < int (length bs) \<Longrightarrow>
   \<exists>c. script_checksum bs i = Some c \<and> (c = - 1 \<or> (4 \<le> c \<and> c \<le> i))"
proof (induction bs i rule: script_checksum.induct)
  case (1 bs i)
  show ?case
  proof (cases "4 \<le> i")
    case False
    then show ?thesis by (simp add: script_checksum.simps)
  next
    case True
    show ?thesis
    proof (cases "bs ! nat i = 0x2E \<and> bs ! nat (i + 1) = 0x51 \<and> bs ! nat (i + 2) = 0x31")
      case t: True
      with True 1(2) show ?thesis by (subst script_checksum.simps) simp
    next
      case f: False
      with True 1(2)
      have t: "andalso (is_at bs i 0x2E) (andalso (Some (i + 2 < int (length bs)))
                (andalso (is_at bs (i + 1) 0x51) (is_at bs (i + 2) 0x31))) = Some False"
        by auto
      have "\<exists>c. script_checksum bs (i - 1) = Some c \<and> (c = - 1 \<or> (4 \<le> c \<and> c \<le> i - 1))"
        using 1(2) by (intro 1(1) [OF True t]) simp_all
      with True t show ?thesis by (subst script_checksum.simps) auto
    qed
  qed
qed

lemma script_version_total:
  "i < cs \<Longrightarrow> cs \<le> int (length bs) \<Longrightarrow>
   \<exists>s e. script_version bs cs start i = Some (s, e) \<and>
      ((s = 0 \<and> e = 0) \<or> (1 \<le> s \<and> s \<le> i \<and> e = start))"
proof (induction bs cs start i rule: script_version.induct)
  case (1 bs cs start i)
  show ?case
  proof (cases "1 \<le> i")
    case False
    then show ?thesis by (simp add: script_version.simps)
  next
    case True
    show ?thesis
    proof (cases "bs ! nat i = 0x2D \<and> i + 1 < cs \<and> digit (bs ! nat (i + 1))")
      case t: True
      with True 1(2,3) show ?thesis by (subst script_version.simps) simp
    next
      case f: False
      with True 1(2,3)
      have t: "andalso (is_at bs i 0x2D) (andalso (Some (i + 1 < cs)) (digit_at bs (i + 1))) = Some False"
        by (cases "i + 1 < cs") auto
      have "\<exists>s e. script_version bs cs start (i - 1) = Some (s, e) \<and>
          ((s = 0 \<and> e = 0) \<or> (1 \<le> s \<and> s \<le> i - 1 \<and> e = start))"
        using 1(2,3) by (intro 1(1) [OF True t]) simp_all
      with True t show ?thesis by (subst script_version.simps) auto
    qed
  qed
qed

lemma Script_total:
  "\<exists>s e. Script bs = Some (s, e) \<and>
     ((s = 0 \<and> e = 0) \<or> (0 < s \<and> s < e \<and> e < int (length bs)))"
proof (cases "int (length bs) < 20")
  case True
  then show ?thesis by (simp add: Script_def)
next
  case long: False
  from script_start_total [OF suffixes_nonempty, of bs]
  obtain start where st: "script_start bs suffixes = Some start"
    and stb: "start = 0 \<or> (0 < start \<and> start < int (length bs))"
    by auto
  show ?thesis
  proof (cases "start = 0")
    case True
    with long st show ?thesis by (simp add: Script_def Let_def)
  next
    case False
    with stb have sb: "0 < start" "start < int (length bs)" by auto
    from script_checksum_total [of "start - 2" bs] sb
    obtain c where c: "script_checksum bs (start - 2) = Some c"
      and cb: "c = - 1 \<or> (4 \<le> c \<and> c \<le> start - 2)"
      by auto
    show ?thesis
    proof (cases "c < 0")
      case True
      with long st False c show ?thesis by (simp add: Script_def Let_def)
    next
      case nneg: False
      with cb have cb': "4 \<le> c" "c \<le> start - 2" by auto
      from script_version_total [of "c - 1" c bs start] cb' sb
      obtain s e where v: "script_version bs c start (c - 1) = Some (s, e)"
        and vb: "(s = 0 \<and> e = 0) \<or> (1 \<le> s \<and> s \<le> c - 1 \<and> e = start)"
        by auto
      from vb cb' sb have "(s = 0 \<and> e = 0) \<or> (0 < s \<and> s < e \<and> e < int (length bs))"
        by auto
      with long st False c nneg v show ?thesis by (simp add: Script_def Let_def)
    qed
  qed
qed

lemma suffix_digits_total:
  "- 1 \<le> i \<Longrightarrow> i < int (length bs) \<Longrightarrow>
   \<exists>j. suffix_digits bs i = Some j \<and> - 1 \<le> j \<and> j \<le> i"
proof (induction bs i rule: suffix_digits.induct)
  case (1 bs i)
  show ?case
  proof (cases "0 \<le> i")
    case False
    with 1(2) show ?thesis by (simp add: suffix_digits.simps)
  next
    case True
    show ?thesis
    proof (cases "digit (bs ! nat i)")
      case False
      with True 1(2,3) show ?thesis by (subst suffix_digits.simps) simp
    next
      case d: True
      with True 1(3) have "\<exists>j. suffix_digits bs (i - 1) = Some j \<and> - 1 \<le> j \<and> j \<le> i - 1"
        by (intro 1(1) [of True]) simp_all
      with True d 1(3) show ?thesis by (subst suffix_digits.simps) auto
    qed
  qed
qed

lemma suffix_scan_total:
  "- 1 \<le> i \<Longrightarrow> i < int (length bs) \<Longrightarrow>
   \<exists>r. suffix_scan bs i = Some r \<and> 0 \<le> r \<and> r \<le> max 0 i"
proof (induction bs i rule: suffix_scan.induct)
  case (1 bs i)
  show ?case
  proof (cases "0 \<le> i")
    case False
    then show ?thesis by (simp add: suffix_scan.simps)
  next
    case True
    let ?c = "bs ! nat i"
    let ?t = "?c = 0x2D \<and> i + 1 < int (length bs) \<and> digit (bs ! nat (i + 1))"
    have t: "andalso (Some (?c = 0x2D)) (andalso (Some (i + 1 < int (length bs)))
                     (digit_at bs (i + 1))) = Some ?t"
      using True by (cases "?c = 0x2D"; cases "i + 1 < int (length bs)") auto
    show ?thesis
    proof (cases ?t)
      case True
      with \<open>0 \<le> i\<close> 1(3) t show ?thesis by (subst suffix_scan.simps) simp
    next
      case f: False
      show ?thesis
      proof (cases "verchar ?c")
        case False
        with \<open>0 \<le> i\<close> 1(3) t f show ?thesis by (subst suffix_scan.simps) simp
      next
        case v: True
        have bt: "byte_at bs i = Some ?c" using True 1(3) by simp
        from True 1(3) t f v
        have "\<exists>r. suffix_scan bs (i - 1) = Some r \<and> 0 \<le> r \<and> r \<le> max 0 (i - 1)"
          by (intro 1(1) [OF True bt, of False]) simp_all
        with \<open>0 \<le> i\<close> 1(3) t f v show ?thesis by (subst suffix_scan.simps) auto
      qed
    qed
  qed
qed

lemma Suffix_total:
  "\<exists>r. Suffix bs = Some r \<and> 0 \<le> r \<and> r \<le> int (length bs)"
proof -
  let ?i = "int (length bs) - 1"
  show ?thesis
  proof (cases "?i > 2 \<and> digit (bs ! nat ?i)")
    case False
    have "?i > 2 \<Longrightarrow> digit_at bs ?i = Some (digit (bs ! nat ?i))"
      by (rule digit_at_in) auto
    with False have t: "andalso (Some (?i > 2)) (digit_at bs ?i) = Some False"
      by (cases "?i > 2") auto
    from suffix_scan_total [of ?i bs]
    obtain r where "suffix_scan bs ?i = Some r" "0 \<le> r" "r \<le> max 0 ?i" by auto
    with t show ?thesis by (auto simp add: Suffix_def Let_def)
  next
    case True
    then have "digit_at bs ?i = Some (digit (bs ! nat ?i))"
      by (intro digit_at_in) auto
    with True have t: "andalso (Some (?i > 2)) (digit_at bs ?i) = Some True" by auto
    from suffix_digits_total [of ?i bs] True
    obtain j where j: "suffix_digits bs ?i = Some j" "- 1 \<le> j" "j \<le> ?i" by auto
    let ?r = "j > 0 \<and> bs ! nat j = 0x72 \<and> bs ! nat (j - 1) = 0x2D"
    have r: "andalso (Some (j > 0)) (andalso (is_at bs j 0x72) (is_at bs (j - 1) 0x2D)) = Some ?r"
      using j by (cases "j > 0") auto
    let ?k = "if ?r then j - 2 else j"
    have kb: "- 1 \<le> ?k" "?k < int (length bs)" using j by auto
    from suffix_scan_total [OF kb]
    obtain q where q: "suffix_scan bs ?k = Some q" "0 \<le> q" "q \<le> max 0 ?k" by blast
    have "Suffix bs = Some q"
      using t j(1) r q(1) by (simp add: Suffix_def Let_def)
    moreover have "q \<le> int (length bs)" using q(3) j by (auto split: if_splits)
    ultimately show ?thesis using q(2) by blast
  qed
qed

section \<open>Spans, Equal and Hash\<close>



lemma Spans_Hash:
  "\<exists>j s e. Spans bs = Some (j, s, e) \<and> 0 \<le> j \<and> j \<le> int (length bs) \<and>
     ((s = 0 \<and> e = 0) \<or> (0 < j \<and> j < s \<and> s < e \<and> e = int (length bs))) \<and>
     Hash H bs seed =
       Some ((if e = 0 then H seed (take (nat j) bs)
              else H seed (take (nat j) bs) XOR H seed (drop (nat s) bs)) AND NOT ExactFlag,
             H seed bs AND NOT ExactFlag)"
proof -
  obtain so where so: "Soname bs = Some so" "0 \<le> so" "so \<le> int (length bs)"
    using Soname_spec soname_spec_bounds by blast
  obtain s1 e1 where sc: "Script bs = Some (s1, e1)"
    "(s1 = 0 \<and> e1 = 0) \<or> (0 < s1 \<and> s1 < e1 \<and> e1 < int (length bs))"
    using Script_total by blast
  obtain s2 e2 where em: "Embedded bs = Some (s2, e2)"
    "(s2 = 0 \<and> e2 = 0) \<or> (0 < s2 \<and> s2 < e2 \<and> e2 < int (length bs) - 1)"
    using Embedded_total by blast
  obtain su where su: "Suffix bs = Some su" "0 \<le> su" "su \<le> int (length bs)"
    using Suffix_total by blast
  show ?thesis
  proof (cases "0 < so")
    case True
    with so show ?thesis by (auto simp add: Spans_def Hash_def Let_def)
  next
    case nso: False
    show ?thesis
    proof (cases "0 < s1")
      case True
      with nso so sc show ?thesis by (auto simp add: Spans_def Hash_def Let_def)
    next
      case nsc: False
      show ?thesis
      proof (cases "0 < s2")
        case True
        with nso nsc so sc em show ?thesis by (auto simp add: Spans_def Hash_def Let_def)
      next
        case nem: False
        show ?thesis
        proof (cases "0 < su")
          case True
          with nso nsc nem so sc em su show ?thesis by (auto simp add: Spans_def Hash_def Let_def)
        next
          case False
          with nso nsc nem so sc em su show ?thesis by (auto simp add: Spans_def Hash_def Let_def)
        qed
      qed
    qed
  qed
qed

lemma Equal_total: "\<exists>r. Equal a b = Some r"
proof -
  from Spans_Hash [of a "\<lambda>_ _. 0" "()"] obtain ja sa ea where
    a: "Spans a = Some (ja, sa, ea)" "0 \<le> ja" "ja \<le> int (length a)"
       "(sa = 0 \<and> ea = 0) \<or> (0 < ja \<and> ja < sa \<and> sa < ea \<and> ea = int (length a))"
    by blast
  from Spans_Hash [of b "\<lambda>_ _. 0" "()"] obtain jb sb eb where
    b: "Spans b = Some (jb, sb, eb)" "0 \<le> jb" "jb \<le> int (length b)"
       "(sb = 0 \<and> eb = 0) \<or> (0 < jb \<and> jb < sb \<and> sb < eb \<and> eb = int (length b))"
    by blast
  from a b show ?thesis
    by (auto simp add: Equal_def slices_equal_def andalso_def)
qed

lemma Equal_refl: "Equal a a = Some True"
proof -
  from Spans_Hash [of a "\<lambda>_ _. 0" "()"] obtain ja sa ea where
    a: "Spans a = Some (ja, sa, ea)" "0 \<le> ja" "ja \<le> int (length a)"
       "(sa = 0 \<and> ea = 0) \<or> (0 < ja \<and> ja < sa \<and> sa < ea \<and> ea = int (length a))"
    by blast
  then show ?thesis
    by (auto simp add: Equal_def slices_equal_def andalso_def)
qed

lemma Equal_sym: "Equal a b = Equal b a"
proof -
  from Spans_Hash [of a "\<lambda>_ _. 0" "()"] obtain ja sa ea where
    a: "Spans a = Some (ja, sa, ea)" "0 \<le> ja" "ja \<le> int (length a)"
       "(sa = 0 \<and> ea = 0) \<or> (0 < ja \<and> ja < sa \<and> sa < ea \<and> ea = int (length a))"
    by blast
  from Spans_Hash [of b "\<lambda>_ _. 0" "()"] obtain jb sb eb where
    b: "Spans b = Some (jb, sb, eb)" "0 \<le> jb" "jb \<le> int (length b)"
       "(sb = 0 \<and> eb = 0) \<or> (0 < jb \<and> jb < sb \<and> sb < eb \<and> eb = int (length b))"
    by blast
  from a b show ?thesis
    by (auto simp add: Equal_def slices_equal_def andalso_def)
qed

lemma Equal_Hash:
  assumes "Equal a b = Some True"
  shows "\<exists>h ea eb. Hash H a seed = Some (h, ea) \<and> Hash H b seed = Some (h, eb)"
proof -
  from Spans_Hash [of a H seed] obtain ja sa ea where
    a: "Spans a = Some (ja, sa, ea)" "0 \<le> ja" "ja \<le> int (length a)"
       "(sa = 0 \<and> ea = 0) \<or> (0 < ja \<and> ja < sa \<and> sa < ea \<and> ea = int (length a))"
    and ha: "Hash H a seed =
       Some ((if ea = 0 then H seed (take (nat ja) a)
              else H seed (take (nat ja) a) XOR H seed (drop (nat sa) a)) AND NOT ExactFlag,
             H seed a AND NOT ExactFlag)"
    by blast
  from Spans_Hash [of b H seed] obtain jb sb eb where
    b: "Spans b = Some (jb, sb, eb)" "0 \<le> jb" "jb \<le> int (length b)"
       "(sb = 0 \<and> eb = 0) \<or> (0 < jb \<and> jb < sb \<and> sb < eb \<and> eb = int (length b))"
    and hb: "Hash H b seed =
       Some ((if eb = 0 then H seed (take (nat jb) b)
              else H seed (take (nat jb) b) XOR H seed (drop (nat sb) b)) AND NOT ExactFlag,
             H seed b AND NOT ExactFlag)"
    by blast
  from assms a b have j: "ja = jb" and d: "ea - sa = eb - sb"
    by (auto simp add: Equal_def split: if_splits)
  from assms a b j d have t1: "take (nat ja) a = take (nat jb) b"
    by (auto simp add: Equal_def slices_equal_def andalso_def split: if_splits)
  from assms a b j d have t2: "take (nat (ea - sa)) (drop (nat sa) a) = take (nat (eb - sb)) (drop (nat sb) b)"
    by (auto simp add: Equal_def slices_equal_def andalso_def split: if_splits)
  show ?thesis
  proof (cases "ea = 0")
    case True
    with a(4) d b(4) have "eb = 0" by auto
    with True ha hb t1 show ?thesis by simp
  next
    case False
    with a(4) d b(4) have e: "ea = int (length a)" "eb = int (length b)" "eb \<noteq> 0" "0 \<le> sa" "0 \<le> sb" by auto
    with t2 have "drop (nat sa) a = drop (nat sb) b"
      by (simp add: nat_diff_distrib)
    with False e ha hb t1 show ?thesis by simp
  qed
qed

section \<open>The claims about the matchers, Equal and Hash\<close>


text \<open>
  C9. Soname scans from \<open>len-2\<close> down to 3 and returns the first index \<open>i\<close> with
  \<open>bs[i] = '.'\<close>, \<open>bs[i+1]\<close> an ASCII digit and \<open>bs[i-3..i-1] = ".so"\<close>, and 0 when there is
  none; the three examples of the specification evaluate as stated.
\<close>

theorem Soname_scan:
  "Soname bs = Some (soname_spec bs) \<and>
   Soname (bytes ''libfoo.so.1'') = Some 9 \<and>
   Soname (bytes ''libfoo.so'') = Some 0 \<and>
   Soname (bytes ''.so.1'') = Some 3"
proof -
  have "Soname (bytes ''libfoo.so.1'') = Some 9" by code_simp
  moreover have "Soname (bytes ''libfoo.so'') = Some 0" by code_simp
  moreover have "Soname (bytes ''.so.1'') = Some 3" by code_simp
  ultimately show ?thesis using Soname_spec [of bs] by simp
qed

text \<open>
  C8. On every byte slice each of the four matchers returns (no index goes out of range),
  its indices lie in \<open>[0, len]\<close>, and a pair \<open>(s, e)\<close> with \<open>s > 0\<close> has \<open>e > s\<close>.
\<close>

theorem matchers_in_range:
  "(\<exists>r. Soname bs = Some r \<and> 0 \<le> r \<and> r \<le> int (length bs)) \<and>
   (\<exists>s e. Script bs = Some (s, e) \<and> 0 \<le> s \<and> s \<le> int (length bs) \<and>
           0 \<le> e \<and> e \<le> int (length bs) \<and> (0 < s \<longrightarrow> s < e)) \<and>
   (\<exists>s e. Embedded bs = Some (s, e) \<and> 0 \<le> s \<and> s \<le> int (length bs) \<and>
           0 \<le> e \<and> e \<le> int (length bs) \<and> (0 < s \<longrightarrow> s < e)) \<and>
   (\<exists>r. Suffix bs = Some r \<and> 0 \<le> r \<and> r \<le> int (length bs))"
proof (intro conjI)
  show "\<exists>r. Soname bs = Some r \<and> 0 \<le> r \<and> r \<le> int (length bs)"
    using Soname_spec [of bs] soname_spec_bounds [of bs] by simp
  show "\<exists>s e. Script bs = Some (s, e) \<and> 0 \<le> s \<and> s \<le> int (length bs) \<and>
           0 \<le> e \<and> e \<le> int (length bs) \<and> (0 < s \<longrightarrow> s < e)"
    using Script_total [of bs] by auto
  show "\<exists>s e. Embedded bs = Some (s, e) \<and> 0 \<le> s \<and> s \<le> int (length bs) \<and>
           0 \<le> e \<and> e \<le> int (length bs) \<and> (0 < s \<longrightarrow> s < e)"
    using Embedded_total [of bs] by auto
  show "\<exists>r. Suffix bs = Some r \<and> 0 \<le> r \<and> r \<le> int (length bs)"
    by (rule Suffix_total)
qed

theorem matchers_in_range_witness:
  "(\<exists>s e. Script (bytes ''alpine-baselayout-3.6.8-r1.Q17OteNVXn9.post-install'') = Some (s, e) \<and>
         s = 17 \<and> e = 38 \<and> 0 < s \<and> s < e) \<and>
   (\<exists>s e. Embedded (bytes ''foo.1.2.3.so'') = Some (s, e) \<and> s = 3 \<and> e = 9 \<and> 0 < s \<and> s < e)"
proof -
  have 1: "Script (bytes ''alpine-baselayout-3.6.8-r1.Q17OteNVXn9.post-install'') = Some (17, 38)"
    by code_simp
  have 2: "Embedded (bytes ''foo.1.2.3.so'') = Some (3, 9)"
    by code_simp
  from matchers_in_range [of "bytes ''alpine-baselayout-3.6.8-r1.Q17OteNVXn9.post-install''"]
  obtain s e where
    "Script (bytes ''alpine-baselayout-3.6.8-r1.Q17OteNVXn9.post-install'') = Some (s, e)"
    "0 < s \<longrightarrow> s < e"
    by blast
  with 1 have a: "\<exists>s e. Script (bytes ''alpine-baselayout-3.6.8-r1.Q17OteNVXn9.post-install'') = Some (s, e) \<and>
         s = 17 \<and> e = 38 \<and> 0 < s \<and> s < e"
    by simp
  from matchers_in_range [of "bytes ''foo.1.2.3.so''"]
  obtain s e where "Embedded (bytes ''foo.1.2.3.so'') = Some (s, e)" "0 < s \<longrightarrow> s < e"
    by blast
  with 2 have "\<exists>s e. Embedded (bytes ''foo.1.2.3.so'') = Some (s, e) \<and> s = 3 \<and> e = 9 \<and> 0 < s \<and> s < e"
    by simp
  with a show ?thesis by blast
qed

text \<open>
  C7. Equal is reflexive and symmetric, and two strings with equal identities have equal
  identity hashes, whatever the hash function and the seed.
\<close>

theorem Equal_refl_sym_Hash:
  "Equal a a = Some True \<and> Equal a b = Equal b a \<and>
   (Equal a b = Some True \<longrightarrow>
      (\<exists>h ea eb. Hash H a seed = Some (h, ea) \<and> Hash H b seed = Some (h, eb)))"
proof (intro conjI impI)
  show "Equal a a = Some True" by (rule Equal_refl)
  show "Equal a b = Equal b a" by (rule Equal_sym)
  show "\<exists>h ea eb. Hash H a seed = Some (h, ea) \<and> Hash H b seed = Some (h, eb)"
    if "Equal a b = Some True" using that by (rule Equal_Hash)
qed

theorem Equal_refl_sym_Hash_witness:
  "Equal (bytes ''libfoo.so.1.0.0'') (bytes ''libfoo.so.2.0.0'') = Some True \<and>
   (\<exists>h ea eb. Hash fnv1a (bytes ''libfoo.so.1.0.0'') 7 = Some (h, ea) \<and>
               Hash fnv1a (bytes ''libfoo.so.2.0.0'') 7 = Some (h, eb))"
proof -
  have e: "Equal (bytes ''libfoo.so.1.0.0'') (bytes ''libfoo.so.2.0.0'') = Some True"
    by code_simp
  from Equal_refl_sym_Hash [of "bytes ''libfoo.so.1.0.0''" "bytes ''libfoo.so.2.0.0''" fnv1a 7]
  have "Equal (bytes ''libfoo.so.1.0.0'') (bytes ''libfoo.so.2.0.0'') = Some True \<longrightarrow>
    (\<exists>h ea eb. Hash fnv1a (bytes ''libfoo.so.1.0.0'') 7 = Some (h, ea) \<and>
               Hash fnv1a (bytes ''libfoo.so.2.0.0'') 7 = Some (h, eb))"
    by (elim conjE)
  with e show ?thesis by (intro conjI) (assumption, erule (1) mp)
qed

section \<open>Chunks, HashAll and the shard table\<close>


lemma idx_Some_iff [simp]: "idx xs i = Some x \<longleftrightarrow> i < length xs \<and> xs ! i = x"
  by (auto simp add: idx_def)

lemma idx_None_iff [simp]: "idx xs i = None \<longleftrightarrow> \<not> i < length xs"
  by (simp add: idx_def)

lemma idx_in [simp]: "i < length xs \<Longrightarrow> idx xs i = Some (xs ! i)"
  by (simp add: idx_def)

lemma upd_in [simp]: "i < length xs \<Longrightarrow> upd xs i v = Some (xs[i := v])"
  by (simp add: upd_def)

lemma upd_Some_iff [simp]: "upd xs i v = Some ys \<longleftrightarrow> i < length xs \<and> ys = xs[i := v]"
  by (auto simp add: upd_def)

lemma foldM_append:
  "foldM f (xs @ ys) s = (case foldM f xs s of None \<Rightarrow> None | Some s' \<Rightarrow> foldM f ys s')"
  by (induction xs arbitrary: s) (auto split: option.splits)

lemma foldM_inv:
  assumes "P s"
    and "\<And>x s. x \<in> set xs \<Longrightarrow> P s \<Longrightarrow> \<exists>s'. f x s = Some s' \<and> P s'"
  shows "\<exists>s'. foldM f xs s = Some s' \<and> P s'"
  using assms
proof (induction xs arbitrary: s)
  case Nil
  then show ?case by simp
next
  case (Cons x xs)
  from Cons.prems obtain s1 where s1: "f x s = Some s1" "P s1" by (meson list.set_intros(1))
  from Cons.IH [OF s1(2)] Cons.prems(2) obtain s' where "foldM f xs s1 = Some s'" "P s'"
    by (meson list.set_intros(2))
  with s1 show ?case by simp
qed


lemma chunk_size_pos:
  assumes "1 \<le> workers" "0 \<le> n"
  shows "\<exists>chunk. chunk_size n workers = Some chunk \<and> 1 \<le> chunk \<and> n \<le> workers * chunk"
proof -
  let ?a = "n + workers - 1"
  let ?q = "?a div workers"
  from assms have q: "quot ?a workers = Some ?q"
    by (simp add: quot_def sgn_if)
  have e: "workers * ?q + ?a mod workers = ?a" by simp
  have l: "?a mod workers < workers" using assms by simp
  from e l have "n \<le> workers * ?q" by linarith
  moreover have "workers * ?q \<le> workers * max 1 ?q" using assms by (simp add: mult_left_mono)
  ultimately have "n \<le> workers * max 1 ?q" by linarith
  with q show ?thesis by (simp add: chunk_size_def)
qed

lemma ranges_nth:
  assumes "k < length (ranges n chunk workers)"
  shows "ranges n chunk workers ! k = (nat (int k * chunk), nat (min (int k * chunk + chunk) n))"
    and "int k * chunk < n" and "int k < workers"
proof -
  let ?P = "\<lambda>w. w * chunk < n"
  let ?ws = "takeWhile ?P [0..workers - 1]"
  from assms have k: "k < length ?ws" by (simp add: ranges_def)
  also have "\<dots> \<le> length [0..workers - 1]" by (rule length_takeWhile_le)
  finally have kl: "k < length [0..workers - 1]" .
  then show "int k < workers" by simp
  have "?ws ! k = [0..workers - 1] ! k" using k by (rule takeWhile_nth)
  also have "\<dots> = int k" using kl by simp
  finally have wk: "?ws ! k = int k" .
  with k show "ranges n chunk workers ! k = (nat (int k * chunk), nat (min (int k * chunk + chunk) n))"
    by (simp add: ranges_def)
  from k have "?ws ! k \<in> set ?ws" by simp
  then have "?P (?ws ! k)" by (auto dest: set_takeWhileD)
  with wk show "int k * chunk < n" by simp
qed

lemma ranges_length: "length (ranges n chunk workers) \<le> nat workers"
proof -
  have "length (takeWhile (\<lambda>w. w * chunk < n) [0..workers - 1]) \<le> length [0..workers - 1]"
    by (rule length_takeWhile_le)
  then show ?thesis by (simp add: ranges_def)
qed

lemma takeWhile_snoc:
  "takeWhile P (xs @ [x]) = (if (\<forall>y \<in> set xs. P y) \<and> P x then xs @ [x] else takeWhile P xs)"
  by (induction xs) auto

lemma ranges_Suc:
  assumes "1 \<le> chunk"
  shows "ranges n chunk (int (Suc m)) =
     ranges n chunk (int m) @
       (if int m * chunk < n then [(nat (int m * chunk), nat (min (int m * chunk + chunk) n))] else [])"
proof -
  let ?P = "\<lambda>w. w * chunk < n"
  have up: "[0..int (Suc m) - 1] = [0..int m - 1] @ [int m]"
    using upto_rec2 [of 0 "int m"] by simp
  show ?thesis
  proof (cases "int m * chunk < n")
    case True
    have all: "\<forall>w \<in> set [0..int m - 1]. ?P w"
    proof
      fix w assume "w \<in> set [0..int m - 1]"
      then have "w \<le> int m" by simp
      then have "w * chunk \<le> int m * chunk" using assms by (simp add: mult_right_mono)
      with True show "?P w" by simp
    qed
    then have t1: "takeWhile ?P [0..int m - 1] = [0..int m - 1]"
      by (simp add: takeWhile_eq_all_conv)
    from all True have t2: "takeWhile ?P ([0..int m - 1] @ [int m]) = [0..int m - 1] @ [int m]"
      unfolding takeWhile_snoc by (simp del: set_upto)
    show ?thesis unfolding ranges_def up t2 t1 using True by simp
  next
    case False
    then have t2: "takeWhile ?P ([0..int m - 1] @ [int m]) = takeWhile ?P [0..int m - 1]"
      unfolding takeWhile_snoc by (simp del: set_upto)
    show ?thesis unfolding ranges_def up t2 using False by simp
  qed
qed

lemma ranges_concat:
  assumes "1 \<le> chunk" "0 \<le> n"
  shows "concat (map (\<lambda>(low, high). [low..<high]) (ranges n chunk (int m))) =
         [0..<nat (min n (int m * chunk))]"
proof (induction m)
  case 0
  then show ?case by (simp add: ranges_def)
next
  case (Suc m)
  show ?case
  proof (cases "int m * chunk < n")
    case True
    then have a: "nat (min n (int m * chunk)) = nat (int m * chunk)" by simp
    have b: "min (int m * chunk + chunk) n = min n (int (Suc m) * chunk)"
      by (simp add: algebra_simps min.commute)
    have c: "nat (int m * chunk) \<le> nat (min n (int (Suc m) * chunk))"
      using True assms by (simp add: algebra_simps)
    have "[0..<nat (int m * chunk)] @ [nat (int m * chunk)..<nat (min n (int (Suc m) * chunk))]
          = [0..<nat (min n (int (Suc m) * chunk))]"
      using c by (metis le0 upt_add_eq_append le_Suc_ex)
    with True Suc a b show ?thesis
      by (simp add: ranges_Suc [OF assms(1)] del: of_nat_Suc)
  next
    case False
    then have "min n (int m * chunk) = n" by simp
    moreover from False assms have "n \<le> int (Suc m) * chunk" 
      by (simp add: algebra_simps)
    then have "min n (int (Suc m) * chunk) = n" by simp
    ultimately show ?thesis using False Suc
      by (simp add: ranges_Suc [OF assms(1)] del: of_nat_Suc)
  qed
qed


lemma ranges_cover:
  assumes "1 \<le> chunk" "0 \<le> n" "0 \<le> workers" "n \<le> workers * chunk"
  shows "concat (map (\<lambda>(low, high). [low..<high]) (ranges n chunk workers)) = [0..<nat n]"
proof -
  from assms(3) have w: "workers = int (nat workers)" by simp
  from assms(4) have "min n (int (nat workers) * chunk) = n" using w by simp
  with ranges_concat [OF assms(1,2), of "nat workers"] w show ?thesis by simp
qed

lemma Hash_total:
  "Hash H bs seed = Some (id_hash H seed bs, exact_hash H seed bs) \<and>
   id_hash H seed bs AND ExactFlag = 0 \<and> exact_hash H seed bs AND ExactFlag = 0"
proof -
  from Spans_Hash [of bs H seed] obtain x where
    "Hash H bs seed = Some (x AND NOT ExactFlag, H seed bs AND NOT ExactFlag)"
    by blast
  then show ?thesis
    by (simp add: id_hash_def exact_hash_def word_bw_assocs)
qed

lemma hash_fold:
  assumes "length a = length files" "length b = length files" "m \<le> length files"
  shows "foldM (hash_slot H seed files) [0..<m] (a, b) =
         Some (map (id_hash H seed) (take m files) @ drop m a,
               map (exact_hash H seed) (take m files) @ drop m b)"
  using assms(3)
proof (induction m)
  case 0
  then show ?case by simp
next
  case (Suc m)
  then have m: "m < length files" by simp
  have u: "(xs @ drop m ys)[m := v] = xs @ [v] @ drop (Suc m) ys"
    if "length xs = m" "m < length ys" for xs ys :: "'b list" and v
  proof -
    from that have "drop m ys = ys ! m # drop (Suc m) ys" by (simp add: Cons_nth_drop_Suc)
    with that show ?thesis by (simp add: list_update_append)
  qed
  have la: "length (map (id_hash H seed) (take m files)) = m" using m by simp
  have lb: "length (map (exact_hash H seed) (take m files)) = m" using m by simp
  have "hash_slot H seed files m
          (map (id_hash H seed) (take m files) @ drop m a,
           map (exact_hash H seed) (take m files) @ drop m b) =
        Some (map (id_hash H seed) (take (Suc m) files) @ drop (Suc m) a,
              map (exact_hash H seed) (take (Suc m) files) @ drop (Suc m) b)"
    using m assms(1,2) u [OF la, of a] u [OF lb, of b]
    by (simp add: hash_slot_def Hash_total take_Suc_conv_app_nth)
  with Suc show ?case by (simp add: foldM_append)
qed

lemma HashAll_eq:
  assumes "1 \<le> workers"
  shows "HashAll H files workers seed =
         Some (map (id_hash H seed) files, map (exact_hash H seed) files)"
proof (cases "files = []")
  case True
  then show ?thesis by (simp add: HashAll_def)
next
  case False
  from chunk_size_pos [OF assms, of "int (length files)"]
  obtain chunk where c: "chunk_size (int (length files)) workers = Some chunk"
    "1 \<le> chunk" "int (length files) \<le> workers * chunk"
    by auto
  from assms have "0 \<le> workers" by simp
  from ranges_cover [OF c(2) _ this c(3)]
  have r: "concat (map (\<lambda>(low, high). [low..<high]) (ranges (int (length files)) chunk workers)) =
           [0..<length files]"
    by simp
  from False c(1) show ?thesis
    by (simp add: HashAll_def Let_def r hash_fold)
qed


lemma ExactFlag_nz: "ExactFlag \<noteq> 0"
  by (simp add: ExactFlag_def)

lemma ExactFlag_exp: "ExactFlag = 2 ^ 63"
  by (simp add: ExactFlag_def)

lemma bit_ExactFlag: "bit ExactFlag n \<longleftrightarrow> n = 63"
proof -
  have "bit (2 ^ 63 :: 64 word) n \<longleftrightarrow> n = 63"
    by (simp only: bit_exp_iff possible_bit_word) auto
  then show ?thesis by (simp only: ExactFlag_exp)
qed

lemma ExactFlag_clear: "h AND ExactFlag = 0 \<longleftrightarrow> \<not> bit h 63"
  by (simp only: ExactFlag_exp and_exp_eq_0_iff_not_bit)

lemma exKey_neq_idKey: "h AND ExactFlag = 0 \<Longrightarrow> e OR ExactFlag \<noteq> h"
proof
  assume h: "h AND ExactFlag = 0" and eq: "e OR ExactFlag = h"
  from h have "\<not> bit h 63" by (simp add: ExactFlag_clear)
  moreover have "bit (e OR ExactFlag) 63" by (simp add: bit_simps bit_ExactFlag)
  ultimately show False using eq by simp
qed

lemma exKey_inj:
  assumes "e1 AND ExactFlag = 0" "e2 AND ExactFlag = 0" "e1 OR ExactFlag = e2 OR ExactFlag"
  shows "e1 = e2"
proof (rule bit_eqI)
  fix n
  from assms(1,2) have c: "\<not> bit e1 63" "\<not> bit e2 63" by (simp_all add: ExactFlag_clear)
  from assms(3) have "bit (e1 OR ExactFlag) n = bit (e2 OR ExactFlag) n" by simp
  then have "(bit e1 n \<or> n = 63) = (bit e2 n \<or> n = 63)" by (simp add: bit_simps bit_ExactFlag)
  with c show "bit e1 n = bit e2 n" by auto
qed

lemma shard_index_less: "unat (h AND shardMask) < 256"
proof -
  have "h AND shardMask \<le> shardMask" by (rule word_and_le1)
  then have "unat (h AND shardMask) \<le> unat shardMask" by (simp add: word_le_nat_alt)
  then show ?thesis by (simp add: shardMask_def)
qed

lemma set_concat_update:
  assumes "k < length qs" "qs ! k = x # xs"
  shows "set (concat qs) = insert x (set (concat (qs[k := xs])))"
proof -
  from id_take_nth_drop [OF assms(1)] assms(2)
  have "qs = take k qs @ (x # xs) # drop (Suc k) qs"
    by simp
  moreover from assms have "qs[k := xs] = take k qs @ xs # drop (Suc k) qs"
    by (simp add: upd_conv_take_nth_drop)
  ultimately have "concat qs = concat (take k qs) @ (x # xs) @ concat (drop (Suc k) qs)"
    and "concat (qs[k := xs]) = concat (take k qs) @ xs @ concat (drop (Suc k) qs)"
    by (metis concat.simps(2) concat_append)+
  then show ?thesis by auto
qed

lemma set_interleave: "set (interleave sch qs) = set (concat qs)"
proof (induction sch arbitrary: qs)
  case Nil
  then show ?case by simp
next
  case (Cons k sch)
  show ?case
  proof (cases "k < length qs")
    case False
    with Cons show ?thesis by simp
  next
    case True
    show ?thesis
    proof (cases "qs ! k")
      case Nil
      with True Cons show ?thesis by simp
    next
      case c: (Cons x xs)
      with True Cons.IH [of "qs[k := xs]"] set_concat_update [OF True c]
      show ?thesis by simp
    qed
  qed
qed


lemma populate_table:
  assumes len: "length curHashes = n" "length curEntries = n"
    and ord: "set order \<subseteq> {..<n}"
  shows "\<exists>shards. foldM (populate curHashes curEntries) order (replicate 256 Map.empty) = Some shards \<and>
           length shards = 256 \<and>
           (\<forall>s k v. s < 256 \<longrightarrow> (shards ! s) k = Some v \<longrightarrow> (\<exists>i<n. v = word_of_nat i)) \<and>
           ((\<forall>i<n. curHashes ! i AND ExactFlag = 0 \<and> curEntries ! i AND ExactFlag = 0) \<longrightarrow>
            (\<forall>i<n. \<forall>j<n. curEntries ! i = curEntries ! j \<longrightarrow> i = j) \<longrightarrow>
            (\<forall>i \<in> set order.
               (shards ! unat (curHashes ! i AND shardMask)) (curEntries ! i OR ExactFlag) =
               Some (word_of_nat i)))"
  using ord
proof (induction order rule: rev_induct)
  case Nil
  then show ?case by simp
next
  case (snoc x xs)
  then have x: "x < n" and xs: "set xs \<subseteq> {..<n}" by auto
  from snoc.IH [OF xs] obtain shards where
    f: "foldM (populate curHashes curEntries) xs (replicate 256 Map.empty) = Some shards"
    and l: "length shards = 256"
    and v: "\<And>s k v. s < 256 \<Longrightarrow> (shards ! s) k = Some v \<Longrightarrow> \<exists>i<n. v = word_of_nat i"
    and t: "(\<forall>i<n. curHashes ! i AND ExactFlag = 0 \<and> curEntries ! i AND ExactFlag = 0) \<Longrightarrow>
            (\<forall>i<n. \<forall>j<n. curEntries ! i = curEntries ! j \<longrightarrow> i = j) \<Longrightarrow>
            (\<forall>i \<in> set xs.
               (shards ! unat (curHashes ! i AND shardMask)) (curEntries ! i OR ExactFlag) =
               Some (word_of_nat i))"
    by blast
  let ?h = "curHashes ! x" and ?e = "curEntries ! x"
  let ?s = "unat (?h AND shardMask)"
  let ?m = "shards ! ?s"
  let ?m1 = "if ?m ?h = None then ?m(?h \<mapsto> word_of_nat x) else ?m"
  let ?shards' = "shards[?s := ?m1(?e OR ExactFlag \<mapsto> word_of_nat x)]"
  have s: "?s < 256" by (rule shard_index_less)
  have p: "populate curHashes curEntries x shards = Some ?shards'"
    using x len l s by (simp add: populate_def Let_def)
  have f': "foldM (populate curHashes curEntries) (xs @ [x]) (replicate 256 Map.empty) = Some ?shards'"
    using f p by (simp add: foldM_append)
  have l': "length ?shards' = 256" using l by simp
  have v': "\<exists>i<n. v = word_of_nat i" if "s < 256" "(?shards' ! s) k = Some v" for s k v
  proof (cases "s = ?s")
    case False
    with that l v [of s k v] show ?thesis by simp
  next
    case True
    with that l s have "(?m1(?e OR ExactFlag \<mapsto> word_of_nat x)) k = Some v" by simp
    then have "v = word_of_nat x \<or> ?m k = Some v"
      by (auto split: if_splits)
    with x v [OF s, of k v] show ?thesis by auto
  qed
  have t': "(?shards' ! unat (curHashes ! i AND shardMask)) (curEntries ! i OR ExactFlag) =
               Some (word_of_nat i)"
    if top: "\<forall>i<n. curHashes ! i AND ExactFlag = 0 \<and> curEntries ! i AND ExactFlag = 0"
      and inj: "\<forall>i<n. \<forall>j<n. curEntries ! i = curEntries ! j \<longrightarrow> i = j"
      and i: "i \<in> set (xs @ [x])" for i
  proof (cases "i = x")
    case True
    with l s show ?thesis by simp
  next
    case False
    with i have ixs: "i \<in> set xs" by simp
    with xs have "i < n" by auto
    from t [OF top inj] ixs
    have old: "(shards ! unat (curHashes ! i AND shardMask)) (curEntries ! i OR ExactFlag) =
               Some (word_of_nat i)"
      by blast
    have k1: "curEntries ! i OR ExactFlag \<noteq> ?h"
      using top x by (intro exKey_neq_idKey) simp
    have k2: "curEntries ! i OR ExactFlag \<noteq> ?e OR ExactFlag"
    proof
      assume eq: "curEntries ! i OR ExactFlag = ?e OR ExactFlag"
      from top \<open>i < n\<close> have c1: "curEntries ! i AND ExactFlag = 0" by blast
      from top x have c2: "?e AND ExactFlag = 0" by blast
      from c1 c2 eq have "curEntries ! i = ?e" by (rule exKey_inj)
      with inj \<open>i < n\<close> x have "i = x" by blast
      with False show False by simp
    qed
    show ?thesis
    proof (cases "unat (curHashes ! i AND shardMask) = ?s")
      case ne: False
      then have "?shards' ! unat (curHashes ! i AND shardMask) = shards ! unat (curHashes ! i AND shardMask)"
        by simp
      with old show ?thesis by (simp only:)
    next
      case True
      have "?shards' ! ?s = ?m1(?e OR ExactFlag \<mapsto> word_of_nat x)"
        using l s by simp
      moreover have "(?m1(?e OR ExactFlag \<mapsto> word_of_nat x)) (curEntries ! i OR ExactFlag) =
          ?m (curEntries ! i OR ExactFlag)"
        using k1 k2 by simp
      moreover have "?m (curEntries ! i OR ExactFlag) = Some (word_of_nat i)"
        using old True by (simp only:)
      ultimately show ?thesis using True by (simp only:)
    qed
  qed
  show ?case
    apply (rule exI [of _ "?shards'"])
    apply (intro conjI allI impI ballI)
       apply (rule f')
      apply (rule l')
     apply (erule (1) v')
    apply (rule t'; assumption)
    done
qed

section \<open>Runs of the Phase 3 workers: a rely-guarantee rule\<close>


lemma run_sched_rg:
  assumes step': "\<forall>k v w. k < n \<longrightarrow> J k v w \<longrightarrow> \<not> finished w \<longrightarrow>
             (\<exists>v' w'. match_step c v w = Some (v', w') \<and> J k v' w' \<and> G k v v')"
    and stable': "\<forall>k k' v v' w. k < n \<longrightarrow> k' < n \<longrightarrow> k \<noteq> k' \<longrightarrow> J k' v w \<longrightarrow> G k v v' \<longrightarrow> J k' v' w"
    and len: "length ws = n"
    and init: "\<forall>k<n. J k v (ws ! k)"
  shows "\<exists>v' ws'. run_sched c sch (v, ws) = Some (v', ws') \<and> length ws' = n \<and>
           (\<forall>k<n. J k v' (ws' ! k))"
proof -
  from step' have step: "\<And>k v w. k < n \<Longrightarrow> J k v w \<Longrightarrow> \<not> finished w \<Longrightarrow>
             \<exists>v' w'. match_step c v w = Some (v', w') \<and> J k v' w' \<and> G k v v'"
    by blast
  from stable' have stable: "\<And>k k' v v' w. k < n \<Longrightarrow> k' < n \<Longrightarrow> k \<noteq> k' \<Longrightarrow> J k' v w \<Longrightarrow> G k v v' \<Longrightarrow> J k' v' w"
    by blast
  from len init show ?thesis
proof (induction sch arbitrary: v ws)
  case Nil
  then show ?case by simp
next
  case (Cons k sch)
  show ?case
  proof (cases "k < length ws \<and> \<not> finished (ws ! k)")
    case False
    with Cons.IH [OF Cons.prems] show ?thesis by auto
  next
    case True
    with Cons.prems have kn: "k < n" and jk: "J k v (ws ! k)" and nf: "\<not> finished (ws ! k)"
      by auto
    from step [OF kn jk nf] obtain v' w' where
      s: "match_step c v (ws ! k) = Some (v', w')" and j': "J k v' w'" and g: "G k v v'"
      by blast
    have l': "length (ws[k := w']) = n" using Cons.prems(1) by simp
    have i': "\<forall>k'<n. J k' v' (ws[k := w'] ! k')"
    proof (intro allI impI)
      fix k' assume k': "k' < n"
      show "J k' v' (ws[k := w'] ! k')"
      proof (cases "k' = k")
        case True
        with j' kn Cons.prems(1) show ?thesis by simp
      next
        case False
        from Cons.prems(2) k' have "J k' v (ws ! k')" by simp
        from stable [OF kn k' _ this g] False have "J k' v' (ws ! k')" by blast
        with False show ?thesis by simp
      qed
    qed
    from Cons.IH [OF l' i'] True s show ?thesis by simp
  qed
qed
qed

lemma run_worker_rg:
  assumes step': "\<forall>k v w. k < n \<longrightarrow> J k v w \<longrightarrow> \<not> finished w \<longrightarrow>
             (\<exists>v' w'. match_step c v w = Some (v', w') \<and> J k v' w' \<and> G k v v')"
    and stable': "\<forall>k k' v v' w. k < n \<longrightarrow> k' < n \<longrightarrow> k \<noteq> k' \<longrightarrow> J k' v w \<longrightarrow> G k v v' \<longrightarrow> J k' v' w"
    and kn: "k < n"
  shows "J k (fst s) (snd s) \<Longrightarrow> \<forall>k'<n. k' \<noteq> k \<longrightarrow> J k' (fst s) (ws ! k') \<Longrightarrow>
         \<exists>v' w'. run_worker c s = Some (v', w') \<and> finished w' \<and> J k v' w' \<and>
           (\<forall>k'<n. k' \<noteq> k \<longrightarrow> J k' v' (ws ! k'))"
  using step' stable'
proof (induction c s rule: run_worker.induct)
  case (1 c v w)
  note step' = 1(4) and stable' = 1(5)
  from step' have step: "\<And>k v w. k < n \<Longrightarrow> J k v w \<Longrightarrow> \<not> finished w \<Longrightarrow>
             \<exists>v' w'. match_step c v w = Some (v', w') \<and> J k v' w' \<and> G k v v'"
    by blast
  from stable' have stable: "\<And>k k' v v' w. k < n \<Longrightarrow> k' < n \<Longrightarrow> k \<noteq> k' \<Longrightarrow> J k' v w \<Longrightarrow> G k v v' \<Longrightarrow> J k' v' w"
    by blast
  show ?case
  proof (cases "finished w")
    case True
    with 1(2,3) show ?thesis by (simp add: run_worker.simps)
  next
    case False
    from 1(2) have jk: "J k v w" by simp
    from step [OF kn jk False] obtain v' w' where
      s: "match_step c v w = Some (v', w')" and j': "J k v' w'" and g: "G k v v'"
      by blast
    have o': "\<forall>k'<n. k' \<noteq> k \<longrightarrow> J k' (fst (v', w')) (ws ! k')"
    proof (intro allI impI)
      fix k' assume k': "k' < n" "k' \<noteq> k"
      with 1(3) have "J k' v (ws ! k')" by simp
      from stable [OF kn k'(1) _ this g] k'(2) show "J k' (fst (v', w')) (ws ! k')" by auto
    qed
    from 1(1) [OF False s _ _ step' stable'] j' o'
    have "\<exists>v'' w''. run_worker c (v', w') = Some (v'', w'') \<and> finished w'' \<and> J k v'' w'' \<and>
           (\<forall>k'<n. k' \<noteq> k \<longrightarrow> J k' v'' (ws ! k'))"
      by simp
    with False s show ?thesis by (simp add: run_worker.simps)
  qed
qed

lemma finish_all_rg:
  assumes step': "\<forall>k v w. k < n \<longrightarrow> J k v w \<longrightarrow> \<not> finished w \<longrightarrow>
             (\<exists>v' w'. match_step c v w = Some (v', w') \<and> J k v' w' \<and> G k v v')"
    and stable': "\<forall>k k' v v' w. k < n \<longrightarrow> k' < n \<longrightarrow> k \<noteq> k' \<longrightarrow> J k' v w \<longrightarrow> G k v v' \<longrightarrow> J k' v' w"
    and len: "length ws = n"
    and init: "\<forall>k<n. J k v (ws ! k)"
    and m: "m \<le> n"
  shows "\<exists>v' ws'. foldM (finish_worker c) [0..<m] (v, ws) = Some (v', ws') \<and> length ws' = n \<and>
           (\<forall>k<n. J k v' (ws' ! k)) \<and> (\<forall>k<m. finished (ws' ! k))"
  using m
proof (induction m)
  case 0
  with len init show ?case by simp
next
  case (Suc m)
  then obtain v1 ws1 where
    f: "foldM (finish_worker c) [0..<m] (v, ws) = Some (v1, ws1)" and l1: "length ws1 = n"
    and j1: "\<forall>k<n. J k v1 (ws1 ! k)" and d1: "\<forall>k<m. finished (ws1 ! k)"
    by auto
  from Suc.prems have mn: "m < n" by simp
  from j1 mn have a: "J m (fst (v1, ws1 ! m)) (snd (v1, ws1 ! m))" by simp
  from j1 have b: "\<forall>k'<n. k' \<noteq> m \<longrightarrow> J k' (fst (v1, ws1 ! m)) (ws1 ! k')" by simp
  from run_worker_rg [where J = J and G = G and n = n and c = c and k = m
      and s = "(v1, ws1 ! m)" and ws = ws1, OF step' stable' mn a b]
  obtain v' w' where r: "run_worker c (v1, ws1 ! m) = Some (v', w')" and fw: "finished w'"
    and jm: "J m v' w'" and jo: "\<forall>k'<n. k' \<noteq> m \<longrightarrow> J k' v' (ws1 ! k')"
    by blast
  have fin: "finish_worker c m (v1, ws1) = Some (v', ws1[m := w'])"
    using r mn l1 by (simp add: finish_worker_def)
  have "foldM (finish_worker c) [0..<Suc m] (v, ws) = Some (v', ws1[m := w'])"
    using f fin by (simp add: foldM_append)
  moreover have "length (ws1[m := w']) = n" using l1 by simp
  moreover have "\<forall>k<n. J k v' (ws1[m := w'] ! k)"
    using jm jo l1 mn by (auto simp add: nth_list_update)
  moreover have "\<forall>k<Suc m. finished (ws1[m := w'] ! k)"
    using fw d1 l1 mn by (auto simp add: nth_list_update less_Suc_eq)
  ultimately show ?case by blast
qed

lemma run_workers_rg:
  assumes step': "\<forall>k v w. k < n \<longrightarrow> J k v w \<longrightarrow> \<not> finished w \<longrightarrow>
             (\<exists>v' w'. match_step c v w = Some (v', w') \<and> J k v' w' \<and> G k v v')"
    and stable': "\<forall>k k' v v' w. k < n \<longrightarrow> k' < n \<longrightarrow> k \<noteq> k' \<longrightarrow> J k' v w \<longrightarrow> G k v v' \<longrightarrow> J k' v' w"
    and len: "length ws = n"
    and init: "\<forall>k<n. J k v (ws ! k)"
  shows "\<exists>v' ws'. run_workers c sch (v, ws) = Some (v', ws') \<and> length ws' = n \<and>
           (\<forall>k<n. J k v' (ws' ! k) \<and> finished (ws' ! k))"
proof -
  from run_sched_rg [where J = J and G = G and n = n and c = c and ws = ws and v = v
      and sch = sch, OF step' stable' len init]
  obtain v1 ws1 where r: "run_sched c sch (v, ws) = Some (v1, ws1)" and l1: "length ws1 = n"
    and j1: "\<forall>k<n. J k v1 (ws1 ! k)"
    by blast
  from finish_all_rg [where J = J and G = G and n = n and c = c and ws = ws1 and v = v1
      and m = n, OF step' stable' l1 j1]
  obtain v' ws' where "foldM (finish_worker c) [0..<n] (v1, ws1) = Some (v', ws')"
    "length ws' = n" "\<forall>k<n. J k v' (ws' ! k)" "\<forall>k<n. finished (ws' ! k)"
    by blast
  with r l1 show ?thesis by (auto simp add: run_workers_def)
qed

section \<open>The claim bitset\<close>


lemma mark_bit_exp: "mark_bit j = 2 ^ unat (j AND 63)"
  by (simp add: mark_bit_def)

lemma mark_pos_less: "unat (j AND 63 :: 32 word) < 64"
proof -
  have "j AND 63 \<le> 63" by (rule word_and_le1)
  then have "unat (j AND 63) \<le> unat (63 :: 32 word)" by (simp add: word_le_nat_alt)
  then show ?thesis by simp
qed

lemma mark_test: "x AND mark_bit j \<noteq> 0 \<longleftrightarrow> bit x (unat (j AND 63))"
  by (simp only: mark_bit_exp and_exp_eq_0_iff_not_bit simp_thms)

lemma bit_mark_bit: "bit (mark_bit j) n \<longleftrightarrow> n = unat (j AND 63)"
  using mark_pos_less [of j]
  by (simp only: mark_bit_exp bit_exp_iff possible_bit_word) auto

lemma bit_or_mark: "bit (x OR mark_bit j) n \<longleftrightarrow> bit x n \<or> n = unat (j AND 63)"
  by (simp add: bit_or_iff bit_mark_bit)

lemma mark_word_div: "mark_word j = unat j div 64"
  by (simp add: mark_word_def unat_drop_bit_eq drop_bit_eq_div unat_div)

lemma mark_pos_mod: "unat (j AND 63 :: 32 word) = unat j mod 64"
proof -
  have "(63 :: 32 word) = mask 6" by (simp add: mask_eq_exp_minus_1)
  then have "j AND 63 = take_bit 6 j" by (simp add: take_bit_eq_mask)
  then show ?thesis by (simp add: unsigned_take_bit_eq take_bit_eq_mod unat_mod)
qed

lemma mark_inj:
  assumes "mark_word j = mark_word j'" "unat (j AND 63) = unat (j' AND 63)"
  shows "j = j'"
proof -
  from assms have "unat j div 64 = unat j' div 64" "unat j mod 64 = unat j' mod 64"
    by (simp_all add: mark_word_div mark_pos_mod)
  then have "unat j = unat j'" by (metis div_mult_mod_eq)
  then show ?thesis by (simp add: word_unat_eq_iff)
qed

lemma IsMarked_in:
  "mark_word j < length v \<Longrightarrow> IsMarked v j = Some (bit (v ! mark_word j) (unat (j AND 63)))"
  by (simp add: IsMarked_def mark_test)

lemma IsMarked_set:
  assumes "mark_word j < length v" "mark_word j' < length v"
  shows "IsMarked (v[mark_word j := v ! mark_word j OR mark_bit j]) j' =
         Some (j' = j \<or> IsMarked v j' = Some True)"
proof (cases "mark_word j' = mark_word j")
  case False
  with assms show ?thesis by (auto simp add: IsMarked_in dest: arg_cong [where f = mark_word])
next
  case True
  with assms have "IsMarked (v[mark_word j := v ! mark_word j OR mark_bit j]) j' =
      Some (bit (v ! mark_word j) (unat (j' AND 63)) \<or> unat (j' AND 63) = unat (j AND 63))"
    by (simp add: IsMarked_in bit_or_mark)
  moreover have "unat (j' AND 63) = unat (j AND 63) \<longleftrightarrow> j' = j"
    using True mark_inj [of j' j] by auto
  ultimately show ?thesis using True assms by (auto simp add: IsMarked_in)
qed

lemma IsMarked_zero: "mark_word j < n \<Longrightarrow> IsMarked (replicate n 0) j = Some False"
  by (simp add: IsMarked_in)

lemma unat_word_of_nat_le: "unat (word_of_nat i :: 32 word) \<le> i"
  by (simp add: unat_of_nat)

lemma mark_word_less:
  assumes "unat j < n"
  shows "mark_word j < nat ((int n + 63) div 64)"
proof -
  have "unat j div 64 < (n + 63) div 64" using assms by simp
  moreover have "nat ((int n + 63) div 64) = (n + 63) div 64"
    by (metis nat_int of_nat_add of_nat_numeral zdiv_int)
  ultimately show ?thesis by (simp add: mark_word_div)
qed

section \<open>Phase 3: one step keeps the invariant\<close>


lemma marks_grow_refl [simp]: "marks_grow v v"
  by (simp add: marks_grow_def)

lemma count_status_snoc:
  "count_status s (es @ [e]) = count_status s es + (if Status e = s then 1 else 0)"
  by (simp add: count_status_def)

lemma status_ucast:
  "(ucast Unchanged :: 32 word) = 0" "(ucast Updated :: 32 word) = 1"
  "(ucast Removed :: 32 word) = 2" "(ucast Added :: 32 word) = 3"
  by (simp_all add: Unchanged_def Updated_def Removed_def Added_def)

lemma status_unat:
  "unat Unchanged = 0" "unat Updated = 1" "unat Removed = 2" "unat Added = 3"
  by (simp_all add: Unchanged_def Updated_def Removed_def Added_def)

lemma worker_inv_emit:
  assumes inv: "worker_inv c lo hi w" and i: "w_i w < hi"
    and st: "st = Unchanged \<or> st = Updated \<or> st = Removed"
    and good: "good_entry c (w_i w) \<lparr>Old = word_of_nat (w_i w), New = n, Status = ucast st\<rparr>"
  shows "worker_inv c lo hi (emit w n st)"
proof -
  let ?e = "\<lparr>Old = word_of_nat (w_i w), New = n, Status = ucast st\<rparr>"
  from inv have b: "lo \<le> w_i w" "w_high w = hi" and l: "length (w_entries w) = w_i w - lo"
    and g: "\<forall>p<length (w_entries w). good_entry c (lo + p) (w_entries w ! p)"
    and ls: "length (w_status w) = 3"
    and cs: "\<forall>s<3. w_status w ! s = word_of_nat (count_status (word_of_nat s) (w_entries w))"
    by (simp_all add: worker_inv_def)
  have g': "\<forall>p<length (w_entries w @ [?e]). good_entry c (lo + p) ((w_entries w @ [?e]) ! p)"
  proof (intro allI impI)
    fix p assume "p < length (w_entries w @ [?e])"
    then consider "p < length (w_entries w)" | "p = length (w_entries w)" by fastforce
    then show "good_entry c (lo + p) ((w_entries w @ [?e]) ! p)"
    proof cases
      case 1
      with g show ?thesis by (simp add: nth_append)
    next
      case 2
      with l b good show ?thesis by (simp add: nth_append)
    qed
  qed
  have u: "unat st < 3" using st by (elim disjE) (simp_all add: status_unat)
  have eqs: "(ucast st :: 32 word) = word_of_nat s \<longleftrightarrow> s = unat st" if "s < 3" for s
  proof -
    from that have s: "s = 0 \<or> s = 1 \<or> s = 2" by linarith
    from st have "(ucast st :: 32 word) = word_of_nat (unat st)"
      by (elim disjE) (simp_all add: status_ucast status_unat)
    moreover have "(word_of_nat a :: 32 word) = word_of_nat b \<longleftrightarrow> a = b" if "a < 3" "b < 3" for a b :: nat
    proof -
      from that have "a = 0 \<or> a = 1 \<or> a = 2" "b = 0 \<or> b = 1 \<or> b = 2" by linarith+
      then show ?thesis by (elim disjE) simp_all
    qed
    ultimately show ?thesis using that u by (simp only:) metis
  qed
  have cs': "\<forall>s<3. (w_status w)[unat st := w_status w ! unat st + 1] ! s =
      word_of_nat (count_status (word_of_nat s) (w_entries w @ [?e]))"
  proof (intro allI impI)
    fix s :: nat assume s: "s < 3"
    show "(w_status w)[unat st := w_status w ! unat st + 1] ! s =
      word_of_nat (count_status (word_of_nat s) (w_entries w @ [?e]))"
    proof (cases "s = unat st")
      case True
      with s cs ls eqs [OF s] show ?thesis by (simp add: count_status_snoc)
    next
      case False
      with s cs ls eqs [OF s] show ?thesis by (simp add: count_status_snoc)
    qed
  qed
  from b i l g' ls cs' show ?thesis
    by (simp add: worker_inv_def emit_def)
qed

lemma worker_inv_pc: "worker_inv c lo hi (w\<lparr>w_pc := p\<rparr>) = worker_inv c lo hi w"
  by (simp add: worker_inv_def)

lemma pc_inv_emit [simp]: "pc_inv c v (emit w n st)"
  by (simp add: pc_inv_def emit_def)

lemma good_Removed: "good_entry c i \<lparr>Old = word_of_nat i, New = null, Status = ucast Removed\<rparr>"
  by (simp add: good_entry_def status_ucast)

end
